theory Spec2Isabelle
  imports Complex_Main
begin

section \<open>JavaScript values\<close>

text \<open>
  The values that \<^verbatim>\<open>hw-3.js\<close> inspects. A number is an IEEE double: the model keeps the
  finite ones as reals (the comparison of two finite doubles is the comparison of their
  values) and adds the two infinities and NaN, whose comparisons the source relies on.
  A function value carries an identity and its \<^verbatim>\<open>name\<close> property; any other object
  carries an identity and its properties. A property holds a value, or it is an accessor
  whose getter throws a value when the property is read.
\<close>

datatype jsnum = Finite real | PosInf | NegInf | NaN

datatype 'v slot = Holds 'v | Raises 'v

datatype jsval =
    JUndefined
  | JNull
  | JBool bool
  | JNum jsnum
  | JStr string
  | JFun nat string
  | JObj nat "(string \<times> jsval slot) list"

text \<open>The relational operator \<^verbatim>\<open><\<close> on two numbers: false as soon as one side is NaN.\<close>

fun num_lt :: "jsnum \<Rightarrow> jsnum \<Rightarrow> bool" where
  "num_lt NaN y = False"
| "num_lt x NaN = False"
| "num_lt (Finite a) (Finite b) = (a < b)"
| "num_lt (Finite a) PosInf = True"
| "num_lt (Finite a) NegInf = False"
| "num_lt PosInf y = False"
| "num_lt NegInf (Finite b) = True"
| "num_lt NegInf PosInf = True"
| "num_lt NegInf NegInf = False"

text \<open>The operator \<^verbatim>\<open>typeof\<close>.\<close>

fun typeof :: "jsval \<Rightarrow> string" where
  "typeof JUndefined = ''undefined''"
| "typeof JNull = ''object''"
| "typeof (JBool b) = ''boolean''"
| "typeof (JNum x) = ''number''"
| "typeof (JStr s) = ''string''"
| "typeof (JFun i n) = ''function''"
| "typeof (JObj i ps) = ''object''"

text \<open>Conversion to boolean, as done by \<^verbatim>\<open>if (v)\<close> and \<^verbatim>\<open>!v\<close>.\<close>

fun truthy :: "jsval \<Rightarrow> bool" where
  "truthy JUndefined = False"
| "truthy JNull = False"
| "truthy (JBool b) = b"
| "truthy (JNum x) = (x \<noteq> NaN \<and> x \<noteq> Finite 0)"
| "truthy (JStr s) = (s \<noteq> [])"
| "truthy (JFun i n) = True"
| "truthy (JObj i ps) = True"

text \<open>
  Strict equality \<^verbatim>\<open>===\<close>: no conversion; NaN differs from itself; functions and objects
  are compared by identity.
\<close>

fun strict_eq :: "jsval \<Rightarrow> jsval \<Rightarrow> bool" where
  "strict_eq JUndefined JUndefined = True"
| "strict_eq JNull JNull = True"
| "strict_eq (JBool a) (JBool b) = (a = b)"
| "strict_eq (JNum a) (JNum b) = (a \<noteq> NaN \<and> a = b)"
| "strict_eq (JStr a) (JStr b) = (a = b)"
| "strict_eq (JFun i n) (JFun j m) = (i = j)"
| "strict_eq (JObj i ps) (JObj j qs) = (i = j)"
| "strict_eq a b = False"

text \<open>
  Reading a property of a value that is not null or undefined (the only reads the source
  makes on a caught value happen under \<^verbatim>\<open>if (error)\<close>, where it is neither). The read gives
  the value (\<open>Inr\<close>) or throws what the getter throws (\<open>Inl\<close>).
\<close>

fun get_prop :: "jsval \<Rightarrow> string \<Rightarrow> jsval + jsval" where
  "get_prop (JObj i ps) k =
     (case map_of ps k of
        Some (Holds v) \<Rightarrow> Inr v
      | Some (Raises e) \<Rightarrow> Inl e
      | None \<Rightarrow> Inr JUndefined)"
| "get_prop (JFun i n) k = Inr (if k = ''name'' then JStr n else JUndefined)"
| "get_prop v k = Inr JUndefined"

section \<open>The data of the manager\<close>

text \<open>
  A timer descriptor is the caller's object. It lives in a store of objects, under a
  reference, and outlives its stay in the registry: the caller keeps it, and so does every
  closure \<^verbatim>\<open>safeJob\<close> made for it. \<^verbatim>\<open>add\<close> reads \<^verbatim>\<open>name\<close>, \<^verbatim>\<open>delay\<close>, \<^verbatim>\<open>interval\<close>
  and \<^verbatim>\<open>job\<close> (a missing field reads as undefined) and writes \<^verbatim>\<open>callbackParams\<close> and
  \<^verbatim>\<open>timerId\<close>.

  An element of the registry is a registered object: its reference \<open>oid\<close>, its fields, and
  its property \<^verbatim>\<open>timerId\<close>, which is read and written through the registry only. No object
  is in the registry twice, since \<^verbatim>\<open>add\<close> looks up the name of the object it is given and
  would find the object itself. While an object is registered the manager writes none of
  its fields but \<^verbatim>\<open>timerId\<close>; \<^verbatim>\<open>add\<close> writes \<^verbatim>\<open>callbackParams\<close> into the stored object
  and into the new element alike. Callers do not change an object they have registered.

  A handle of the platform is a positive number (or a timer object): always truthy, so
  \<^verbatim>\<open>null\<close> is \<open>None\<close> and \<^verbatim>\<open>if (timerId)\<close> asks for \<open>Some\<close>.
\<close>

type_synonym handle = nat

type_synonym ref = nat

record js_object =
  name :: jsval
  delay :: jsval
  interval :: jsval
  job :: jsval
  callbackParams :: "jsval list"

record descriptor = js_object +
  timerId :: "handle option"
  oid :: ref

record error_info =
  e_name :: jsval
  e_message :: jsval
  e_stack :: jsval

text \<open>One entry of the log; the field \<^verbatim>\<open>in\<close> is \<open>l_in\<close>, \<^verbatim>\<open>created\<close> is the clock reading.\<close>

record log_entry =
  l_name :: jsval
  l_in :: "jsval list"
  l_out :: jsval
  l_created :: nat
  l_error :: "error_info option"

text \<open>
  A timer armed in the platform by \<^verbatim>\<open>setTimeout\<close> or \<^verbatim>\<open>setInterval\<close>. Its callback is
  the closure \<^verbatim>\<open>safeJob\<close>, which holds the descriptor object it was made for (\<open>oid\<close> of
  \<open>a_desc\<close>) and the constants \<^verbatim>\<open>job\<close> and \<^verbatim>\<open>callbackParams\<close> read from it when the
  timer was armed (the fields of \<open>a_desc\<close>).
\<close>

record armed =
  a_handle :: handle
  a_recurring :: bool
  a_delay :: jsval
  a_desc :: descriptor

text \<open>
  The state: the three fields of the class, the store of arrays that \<^verbatim>\<open>logData\<close> points
  into (\<^verbatim>\<open>print\<close> hands that reference out) with the arrays that still take a new
  element (\<^verbatim>\<open>Object.preventExtensions\<close>, \<^verbatim>\<open>Object.seal\<close> and \<^verbatim>\<open>Object.freeze\<close> end
  that), the store of the callers' objects, and the platform's timers.
\<close>

type_synonym addr = nat

record state =
  timers :: "descriptor list"
  allStarted :: bool
  logData :: addr
  arrays :: "addr \<Rightarrow> log_entry list"
  extensible :: "addr \<Rightarrow> bool"
  objs :: "ref \<Rightarrow> js_object"
  pending :: "armed list"
  nextId :: handle

text \<open>The errors the manager throws, each with its message.\<close>

datatype exn = Error string | TypeError string | RangeError string

text \<open>What a call of a job does: it returns a value or throws one.\<close>

datatype outcome = Returned jsval | Threw jsval

definition log_of :: "state \<Rightarrow> log_entry list" where
  "log_of s = arrays s (logData s)"

text \<open>An object without any of the fields: each reads as undefined.\<close>

definition empty_object :: js_object where
  "empty_object =
     \<lparr>name = JUndefined, delay = JUndefined, interval = JUndefined, job = JUndefined,
      callbackParams = []\<rparr>"

text \<open>
  \<^verbatim>\<open>constructor\<close>: two empty arrays, the flag off; no timer is armed yet, and the callers
  have made no descriptor yet.
\<close>

definition constructor :: state where
  "constructor =
     \<lparr>timers = [], allStarted = False, logData = 0, arrays = (\<lambda>a. []),
      extensible = (\<lambda>a. True), objs = (\<lambda>r. empty_object), pending = [], nextId = 1\<rparr>"

section \<open>The platform's timers\<close>

definition set_timer :: "bool \<Rightarrow> descriptor \<Rightarrow> jsval \<Rightarrow> state \<Rightarrow> handle \<times> state" where
  "set_timer rec d dl s =
     (nextId s,
      s\<lparr>pending := pending s @
           [\<lparr>a_handle = nextId s, a_recurring = rec, a_delay = dl, a_desc = d\<rparr>],
        nextId := Suc (nextId s)\<rparr>)"

definition setInterval :: "descriptor \<Rightarrow> jsval \<Rightarrow> state \<Rightarrow> handle \<times> state" where
  "setInterval = set_timer True"

definition setTimeout :: "descriptor \<Rightarrow> jsval \<Rightarrow> state \<Rightarrow> handle \<times> state" where
  "setTimeout = set_timer False"

definition clear_timer :: "handle \<Rightarrow> state \<Rightarrow> state" where
  "clear_timer h s = s\<lparr>pending := filter (\<lambda>a. a_handle a \<noteq> h) (pending s)\<rparr>"

definition clearInterval :: "handle \<Rightarrow> state \<Rightarrow> state" where
  "clearInterval = clear_timer"

definition clearTimeout :: "handle \<Rightarrow> state \<Rightarrow> state" where
  "clearTimeout = clear_timer"

section \<open>The methods\<close>

text \<open>
  The methods whose names start with an underscore in the source have the prefix \<open>p_\<close>
  here. A method that can throw returns the thrown value as \<open>Inl\<close>.

  \<^verbatim>\<open>push\<close> on an array that takes no new element throws a \<^verbatim>\<open>TypeError\<close> (its message
  depends on the engine) and leaves the array as it is.
\<close>

definition push_error :: jsval where
  "push_error =
     JObj 0 [(''name'', Holds (JStr ''TypeError'')),
             (''message'', Holds (JStr ''Cannot add property, object is not extensible''))]"

definition push :: "addr \<Rightarrow> log_entry \<Rightarrow> state \<Rightarrow> (jsval + unit) \<times> state" where
  "push r x s =
     (if extensible s r then (Inr (), s\<lparr>arrays := (arrays s)(r := arrays s r @ [x])\<rparr>)
      else (Inl push_error, s))"

text \<open>
  The object literal of lines 18 to 22: \<^verbatim>\<open>error.name\<close>, \<^verbatim>\<open>error.message\<close> and
  \<^verbatim>\<open>error.stack\<close> are read in this order, and the first read that throws ends it.
\<close>

definition read_error :: "jsval \<Rightarrow> jsval + error_info" where
  "read_error err =
     (case get_prop err ''name'' of
        Inl e \<Rightarrow> Inl e
      | Inr n \<Rightarrow>
          (case get_prop err ''message'' of
             Inl e \<Rightarrow> Inl e
           | Inr m \<Rightarrow>
               (case get_prop err ''stack'' of
                  Inl e \<Rightarrow> Inl e
                | Inr st \<Rightarrow> Inr \<lparr>e_name = n, e_message = m, e_stack = st\<rparr>)))"

text \<open>
  \<open>p_log\<close> gets the reference of the descriptor and reads the name and the bound arguments
  from the stored object, as they are when it runs. It takes \<^verbatim>\<open>error\<close> as undefined when
  the caller passes two arguments.
\<close>

definition p_log :: "ref \<Rightarrow> jsval \<Rightarrow> jsval \<Rightarrow> nat \<Rightarrow> state \<Rightarrow> (jsval + unit) \<times> state" where
  "p_log r out err now s =
     (let logObj = \<lparr>l_name = name (objs s r), l_in = callbackParams (objs s r), l_out = out,
                    l_created = now, l_error = None\<rparr>
      in if truthy err
         then (case read_error err of
                 Inl e \<Rightarrow> (Inl e, s)
               | Inr info \<Rightarrow> push (logData s) (logObj\<lparr>l_error := Some info\<rparr>) s)
         else push (logData s) logObj s)"

text \<open>\<^verbatim>\<open>print\<close> returns the reference held in \<^verbatim>\<open>logData\<close>.\<close>

definition print :: "state \<Rightarrow> addr \<times> state" where
  "print s = (logData s, s)"

text \<open>\<^verbatim>\<open>Array.prototype.findIndex\<close>: the first position that satisfies the test, or -1.\<close>

fun findIndex :: "('a \<Rightarrow> bool) \<Rightarrow> 'a list \<Rightarrow> int" where
  "findIndex P [] = - 1"
| "findIndex P (x # xs) =
     (if P x then 0 else (let r = findIndex P xs in if r < 0 then - 1 else r + 1))"

definition p_findTimerIndex :: "jsval \<Rightarrow> state \<Rightarrow> exn + int" where
  "p_findTimerIndex timerName s =
     (if typeof timerName \<noteq> ''string'' \<or> \<not> truthy timerName
      then Inl (TypeError ''Timer name must be string type!'')
      else Inr (findIndex (\<lambda>d. strict_eq (name d) timerName) (timers s)))"

definition p_startTimer :: "descriptor \<Rightarrow> state \<Rightarrow> handle option \<times> state" where
  "p_startTimer d s =
     (if timerId d = None
      then (if truthy (interval d)
            then (let (h, s') = setInterval d (delay d) s in (Some h, s'))
            else (let (h, s') = setTimeout d (delay d) s in (Some h, s')))
      else (None, s))"

definition p_stopTimer :: "descriptor \<Rightarrow> state \<Rightarrow> state" where
  "p_stopTimer d s =
     (case timerId d of
        Some h \<Rightarrow> (if truthy (interval d) then clearInterval h s else clearTimeout h s)
      | None \<Rightarrow> s)"

definition dquote :: string where
  "dquote = [CHR 0x22]"

text \<open>
  The element that \<^verbatim>\<open>add\<close> pushes for the object \<open>r\<close> with the fields \<open>ob\<close> and the bound
  arguments \<open>ps\<close>.
\<close>

definition entry_of :: "ref \<Rightarrow> js_object \<Rightarrow> jsval list \<Rightarrow> descriptor" where
  "entry_of r ob ps =
     \<lparr>name = name ob, delay = delay ob, interval = interval ob, job = job ob,
      callbackParams = ps, timerId = None, oid = r\<rparr>"

text \<open>\<^verbatim>\<open>add\<close> gets the reference of the caller's object.\<close>

definition add :: "ref \<Rightarrow> jsval list \<Rightarrow> state \<Rightarrow> (exn + unit) \<times> state" where
  "add r ps s =
     (let d = objs s r in
      if allStarted s then (Inl (Error ''Can not add new timer after start!''), s)
      else (case p_findTimerIndex (name d) s of
        Inl e \<Rightarrow> (Inl e, s)
      | Inr i \<Rightarrow>
          (if i \<ge> 0
           then (Inl (Error (''Timer '' @ dquote @
                   (case name d of JStr n \<Rightarrow> n | _ \<Rightarrow> []) @ dquote @ '' already exists!'')), s)
           else (case delay d of
             JNum x \<Rightarrow>
               (if num_lt x (Finite 0) \<or> num_lt (Finite 5000) x
                then (Inl (RangeError ''Timer delay must be in range [0..5000]!''), s)
                else if typeof (interval d) \<noteq> ''boolean''
                then (Inl (TypeError ''Timer interval must be boolean type!''), s)
                else if typeof (job d) \<noteq> ''function''
                then (Inl (TypeError ''Timer job must be a function!''), s)
                else (Inr (),
                      s\<lparr>objs := (objs s)(r := d\<lparr>callbackParams := ps\<rparr>),
                        timers := timers s @ [entry_of r d ps]\<rparr>))
           | _ \<Rightarrow> (Inl (TypeError ''Timer delay must be numeric type!''), s)))))"

text \<open>
  \<^verbatim>\<open>timers.splice(idx, 1)\<close> for \<open>idx \<ge> 0\<close>: the start is cut at the length, and at most
  one element goes.
\<close>

definition splice1 :: "int \<Rightarrow> 'a list \<Rightarrow> 'a list" where
  "splice1 idx xs =
     (let start = min (nat idx) (length xs);
          deleteCount = min 1 (length xs - start)
      in take start xs @ drop (start + deleteCount) xs)"

definition pause :: "jsval \<Rightarrow> state \<Rightarrow> (exn + int) \<times> state" where
  "pause timerName s =
     (case p_findTimerIndex timerName s of
        Inl e \<Rightarrow> (Inl e, s)
      | Inr idx \<Rightarrow>
          if idx \<ge> 0
          then (let s' = p_stopTimer (timers s ! nat idx) s
                in (Inr idx,
                    s'\<lparr>timers := (timers s')[nat idx := (timers s' ! nat idx)\<lparr>timerId := None\<rparr>]\<rparr>))
          else (Inr idx, s))"

definition resume :: "jsval \<Rightarrow> state \<Rightarrow> (exn + int) \<times> state" where
  "resume timerName s =
     (case p_findTimerIndex timerName s of
        Inl e \<Rightarrow> (Inl e, s)
      | Inr idx \<Rightarrow>
          if idx \<ge> 0
          then (let (h, s') = p_startTimer (timers s ! nat idx) s
                in (Inr idx,
                    s'\<lparr>timers := (timers s')[nat idx := (timers s' ! nat idx)\<lparr>timerId := h\<rparr>]\<rparr>))
          else (Inr idx, s))"

definition remove :: "jsval \<Rightarrow> state \<Rightarrow> (exn + unit) \<times> state" where
  "remove timerName s =
     (case pause timerName s of
        (Inl e, s') \<Rightarrow> (Inl e, s')
      | (Inr idx, s') \<Rightarrow>
          if idx \<ge> 0 then (Inr (), s'\<lparr>timers := splice1 idx (timers s')\<rparr>) else (Inr (), s'))"

text \<open>The two \<^verbatim>\<open>forEach\<close> loops, over the registry in order.\<close>

fun start_each :: "descriptor list \<Rightarrow> state \<Rightarrow> descriptor list \<times> state" where
  "start_each [] s = ([], s)"
| "start_each (d # ds) s =
     (let (h, s1) = p_startTimer d s;
          (ds', s2) = start_each ds s1
      in (d\<lparr>timerId := h\<rparr> # ds', s2))"

fun stop_each :: "descriptor list \<Rightarrow> state \<Rightarrow> descriptor list \<times> state" where
  "stop_each [] s = ([], s)"
| "stop_each (d # ds) s =
     (let s1 = p_stopTimer d s;
          (ds', s2) = stop_each ds s1
      in (d\<lparr>timerId := None\<rparr> # ds', s2))"

definition start :: "state \<Rightarrow> state" where
  "start s =
     (let s' = (if \<not> allStarted s
                then (let (ds, s1) = start_each (timers s) s in s1\<lparr>timers := ds\<rparr>)
                else s)
      in s'\<lparr>allStarted := True\<rparr>)"

definition stop :: "state \<Rightarrow> state" where
  "stop s =
     (let s' = (if allStarted s
                then (let (ds, s1) = stop_each (timers s) s in s1\<lparr>timers := ds\<rparr>)
                else s)
      in s'\<lparr>allStarted := False\<rparr>)"

section \<open>A timer fires\<close>

text \<open>
  The closure \<^verbatim>\<open>safeJob\<close> made for the descriptor \<open>d\<close>, run on the outcome of the call
  \<^verbatim>\<open>job(...callbackParams)\<close>. The \<^verbatim>\<open>try\<close> block ends normally, or with the value thrown
  and the value of the variable \<^verbatim>\<open>result\<close> at that moment: null when the job has thrown, the
  returned value when \<^verbatim>\<open>_log\<close> has thrown.
\<close>

definition try_block :: "descriptor \<Rightarrow> outcome \<Rightarrow> nat \<Rightarrow> state \<Rightarrow> (jsval \<times> jsval + unit) \<times> state" where
  "try_block d oc now s =
     (case oc of
        Threw error \<Rightarrow> (Inl (error, JNull), s)
      | Returned result \<Rightarrow>
          (case p_log (oid d) result JUndefined now s of
             (Inl error, s') \<Rightarrow> (Inl (error, result), s')
           | (Inr u, s') \<Rightarrow> (Inr (), s')))"

text \<open>
  The \<^verbatim>\<open>catch\<close> block calls \<^verbatim>\<open>_log\<close> again; what that call throws leaves the closure. The
  first result of \<open>safeJob\<close> is the value that leaves the closure uncaught, if any.
\<close>

definition safeJob :: "descriptor \<Rightarrow> outcome \<Rightarrow> nat \<Rightarrow> state \<Rightarrow> jsval option \<times> state" where
  "safeJob d oc now s =
     (case try_block d oc now s of
        (Inr u, s') \<Rightarrow> (None, s')
      | (Inl (error, result), s') \<Rightarrow>
          (case p_log (oid d) result error now s' of
             (Inl e, s'') \<Rightarrow> (Some e, s'')
           | (Inr u, s'') \<Rightarrow> (None, s'')))"

text \<open>
  The platform runs the callback of the armed timer \<open>h\<close>; the job's outcome and the clock
  are given from outside. A one-shot timer is gone after its firing, a recurring one stays
  armed; what the platform does with a value that leaves the callback uncaught is not
  followed further. Jobs do not call the manager.
\<close>

datatype fired = NotArmed | Uncaught jsval state | Fired state

definition fire :: "handle \<Rightarrow> outcome \<Rightarrow> nat \<Rightarrow> state \<Rightarrow> fired" where
  "fire h oc now s =
     (case find (\<lambda>a. a_handle a = h) (pending s) of
        None \<Rightarrow> NotArmed
      | Some a \<Rightarrow>
          let (esc, s1) = safeJob (a_desc a) oc now s;
              s2 = (if a_recurring a then s1 else clear_timer h s1)
          in (case esc of None \<Rightarrow> Fired s2 | Some e \<Rightarrow> Uncaught e s2))"

text \<open>
  A caller that holds a reference to an array can change it at will (\<^verbatim>\<open>push\<close>,
  \<^verbatim>\<open>pop\<close>, \<^verbatim>\<open>length = 0\<close>, an assignment by index): afterwards the array at \<open>r\<close> holds \<open>xs\<close>.
  \<open>ext_write\<close> is the effect of the writes that the array has taken.
\<close>

definition ext_write :: "addr \<Rightarrow> log_entry list \<Rightarrow> state \<Rightarrow> state" where
  "ext_write r xs s = s\<lparr>arrays := (arrays s)(r := xs)\<rparr>"


text \<open>The caller makes an object: the object literal \<open>ob\<close>, under the new reference \<open>r\<close>.\<close>

definition ext_new :: "ref \<Rightarrow> js_object \<Rightarrow> state \<Rightarrow> state" where
  "ext_new r ob s = s\<lparr>objs := (objs s)(r := ob)\<rparr>"

section \<open>The descriptors of the source file\<close>

text \<open>
  The five object literals that the file registers after the class (lines 158 to 191). The
  jobs of \<open>t1\<close> and \<open>t3\<close> print and return undefined, those of \<open>t2\<close> and \<open>t4\<close> add their
  two arguments, the job of \<open>t5\<close> throws an \<^verbatim>\<open>Error\<close>. A literal has no property
  \<^verbatim>\<open>callbackParams\<close>; nothing reads it before \<^verbatim>\<open>add\<close> has written it.
\<close>

definition t1 :: js_object where
  "t1 = \<lparr>name = JStr ''t1'', delay = JNum (Finite 1000), interval = JBool True,
         job = JFun 1 ''job'', callbackParams = []\<rparr>"

definition t2 :: js_object where
  "t2 = \<lparr>name = JStr ''t2'', delay = JNum (Finite 1000), interval = JBool False,
         job = JFun 2 ''job'', callbackParams = []\<rparr>"

definition t3 :: js_object where
  "t3 = \<lparr>name = JStr ''t3'', delay = JNum (Finite 500), interval = JBool True,
         job = JFun 3 ''job'', callbackParams = []\<rparr>"

definition t4 :: js_object where
  "t4 = \<lparr>name = JStr ''t4'', delay = JNum (Finite 500), interval = JBool True,
         job = JFun 4 ''job'', callbackParams = []\<rparr>"

definition t5 :: js_object where
  "t5 = \<lparr>name = JStr ''t5'', delay = JNum (Finite 1200), interval = JBool False,
         job = JFun 5 ''job'', callbackParams = []\<rparr>"



text \<open>
  The manager of line 156 and the five objects, under the references 1 to 5, before the
  first call of \<^verbatim>\<open>add\<close>.
\<close>

definition script :: state where
  "script = ext_new 5 t5 (ext_new 4 t4 (ext_new 3 t3 (ext_new 2 t2 (ext_new 1 t1 constructor))))"

section \<open>Notions used to state the properties\<close>

text \<open>A delay inside the closed interval from 0 to 5000: a finite number between the bounds.\<close>

definition in_range :: "jsnum \<Rightarrow> bool" where
  "in_range x = (case x of Finite r \<Rightarrow> 0 \<le> r \<and> r \<le> 5000 | _ \<Rightarrow> False)"


text \<open>Some descriptor of the registry has this name.\<close>

definition registered :: "jsval \<Rightarrow> state \<Rightarrow> bool" where
  "registered tn s = list_ex (\<lambda>d. strict_eq (name d) tn) (timers s)"

text \<open>
  The description of \<^verbatim>\<open>remove\<close> in the specification, to be compared with the method:
  \<^verbatim>\<open>pause(name)\<close>, then the descriptor at the index is deleted if the index was found.
\<close>

definition delete_at :: "nat \<Rightarrow> 'a list \<Rightarrow> 'a list" where
  "delete_at i xs = take i xs @ drop (Suc i) xs"

definition remove_spec :: "jsval \<Rightarrow> state \<Rightarrow> (exn + unit) \<times> state" where
  "remove_spec timerName s =
     (case pause timerName s of
        (Inl e, s') \<Rightarrow> (Inl e, s')
      | (Inr idx, s') \<Rightarrow>
          (Inr (), if 0 \<le> idx then s'\<lparr>timers := delete_at (nat idx) (timers s')\<rparr> else s'))"


text \<open>Some timer of the platform was armed for a descriptor of this name.\<close>

definition has_armed_timer :: "jsval \<Rightarrow> state \<Rightarrow> bool" where
  "has_armed_timer tn s = list_ex (\<lambda>a. strict_eq (name (a_desc a)) tn) (pending s)"

text \<open>
  The entry that \<^verbatim>\<open>_log\<close> pushes for the descriptor \<open>r\<close> when none of its steps throws.
\<close>

definition log_entry_for :: "ref \<Rightarrow> jsval \<Rightarrow> jsval \<Rightarrow> nat \<Rightarrow> state \<Rightarrow> log_entry" where
  "log_entry_for r out err now s =
     \<lparr>l_name = name (objs s r), l_in = callbackParams (objs s r), l_out = out, l_created = now,
      l_error = (if truthy err
                 then (case read_error err of Inl e \<Rightarrow> None | Inr info \<Rightarrow> Some info)
                 else None)\<rparr>"

text \<open>The entry of a firing of a timer armed for \<open>d\<close>, when \<^verbatim>\<open>_log\<close> does not throw.\<close>

definition entry_of_firing :: "descriptor \<Rightarrow> outcome \<Rightarrow> nat \<Rightarrow> state \<Rightarrow> log_entry" where
  "entry_of_firing d oc now s =
     (case oc of
        Returned v \<Rightarrow> log_entry_for (oid d) v JUndefined now s
      | Threw err \<Rightarrow> log_entry_for (oid d) JNull err now s)"

text \<open>The thrown value can be read: none of the three reads of \<^verbatim>\<open>_log\<close> throws.\<close>

definition readable :: "jsval \<Rightarrow> bool" where
  "readable err = (case read_error err of Inl e \<Rightarrow> False | Inr info \<Rightarrow> True)"

text \<open>
  \<^verbatim>\<open>_log\<close> can write the entry of this firing: the array of the log takes a new element,
  and a thrown value that converts to true can be read.
\<close>

definition log_accepts :: "outcome \<Rightarrow> state \<Rightarrow> bool" where
  "log_accepts oc s =
     (extensible s (logData s) \<and>
      (case oc of Returned v \<Rightarrow> True | Threw err \<Rightarrow> truthy err \<longrightarrow> readable err))"

text \<open>The stored object of a registered descriptor has its name and its bound arguments.\<close>

definition synced :: "descriptor \<Rightarrow> state \<Rightarrow> bool" where
  "synced d s =
     (name (objs s (oid d)) = name d \<and> callbackParams (objs s (oid d)) = callbackParams d)"

section \<open>Sequences of operations\<close>

text \<open>
  What can happen to a manager: a call of one of its methods, or the platform firing an armed
  timer. A call that throws leaves the state the method had reached.
\<close>

datatype op =
    Add ref "jsval list" | Start | Stop | Pause jsval | Resume jsval | Remove jsval
  | Print | Fire handle outcome nat

fun state_of :: "fired \<Rightarrow> state \<Rightarrow> state" where
  "state_of NotArmed s = s"
| "state_of (Uncaught e s') s = s'"
| "state_of (Fired s') s = s'"

fun step :: "op \<Rightarrow> state \<Rightarrow> state" where
  "step (Add r ps) s = snd (add r ps s)"
| "step Start s = start s"
| "step Stop s = stop s"
| "step (Pause n) s = snd (pause n s)"
| "step (Resume n) s = snd (resume n s)"
| "step (Remove n) s = snd (remove n s)"
| "step Print s = snd (print s)"
| "step (Fire h oc now) s = state_of (fire h oc now s) s"

fun run :: "op list \<Rightarrow> state \<Rightarrow> state" where
  "run [] s = s"
| "run (x # xs) s = run xs (step x s)"

text \<open>
  What holds in every state a new manager can reach: the platform has issued every handle in
  use, a timer whose handle a registered descriptor stores was armed for that descriptor,
  and the element of the registry agrees with the stored object.
\<close>

definition plat_ok :: "state \<Rightarrow> bool" where
  "plat_ok s = list_all (\<lambda>a. a_handle a < nextId s) (pending s)"

definition desc_ok :: "descriptor \<Rightarrow> state \<Rightarrow> bool" where
  "desc_ok d s =
     (case timerId d of
        None \<Rightarrow> True
      | Some h \<Rightarrow> h < nextId s \<and>
          list_all (\<lambda>a. a_handle a = h \<longrightarrow> a_desc a = d\<lparr>timerId := None\<rparr>) (pending s))"

definition arm_ok :: "state \<Rightarrow> bool" where
  "arm_ok s = (plat_ok s \<and> list_all (\<lambda>d. desc_ok d s) (timers s))"

definition all_synced :: "state \<Rightarrow> bool" where
  "all_synced s = list_all (\<lambda>d. synced d s) (timers s)"

definition wf_state :: "state \<Rightarrow> bool" where
  "wf_state s = (arm_ok s \<and> all_synced s)"

section \<open>States used as examples\<close>

definition one_registered :: state where
  "one_registered = run [Add 1 []] script"

definition two_registered :: state where
  "two_registered = run [Add 1 [], Add 2 []] script"

definition one_started :: state where
  "one_started = run [Add 1 [], Start] script"


text \<open>The descriptor \<open>t1\<close> registered, started, and fired once: it is still armed.\<close>

definition one_fired :: state where
  "one_fired = run [Add 1 [], Start, Fire 1 (Returned JUndefined) 1000] script"

text \<open>The descriptor \<open>t2\<close> registered with 1 and 2, started, and fired once: its job returns 3.\<close>

definition t2_fired :: state where
  "t2_fired =
     run [Add 2 [JNum (Finite 1), JNum (Finite 2)], Start,
          Fire 1 (Returned (JNum (Finite 3))) 1000] script"

section \<open>Auxiliary facts\<close>

subsection \<open>Evaluation of the example states\<close>

lemmas method_defs =
  add_def entry_of_def p_findTimerIndex_def pause_def resume_def remove_def start_def stop_def
  p_startTimer_def p_stopTimer_def setInterval_def setTimeout_def set_timer_def
  clearInterval_def clearTimeout_def clear_timer_def splice1_def print_def
  fire_def safeJob_def try_block_def p_log_def push_def read_error_def
  constructor_def ext_new_def script_def

lemma script_objs:
  "objs script (Suc 0) = t1" "objs script 2 = t2" "objs script 3 = t3" "objs script 4 = t4"
  "objs script 5 = t5"
  by (simp_all add: script_def ext_new_def)

lemma script_fields:
  "timers script = []" "allStarted script = False" "pending script = []" "nextId script = 1"
  "logData script = 0" "arrays script = (\<lambda>a. [])" "extensible script = (\<lambda>a. True)"
  by (simp_all add: script_def ext_new_def constructor_def)

lemma one_registered_fields:
  "timers one_registered = [entry_of 1 t1 []]" "allStarted one_registered = False"
  "pending one_registered = []" "nextId one_registered = 1" "log_of one_registered = []"
  "objs one_registered (Suc 0) = t1" "extensible one_registered 0" "logData one_registered = 0"
  by (simp_all add: one_registered_def t1_def method_defs log_of_def)

lemma two_registered_timers: "timers two_registered = [entry_of 1 t1 [], entry_of 2 t2 []]"
  by (simp add: two_registered_def t1_def t2_def method_defs)

lemma one_started_fields:
  "timers one_started = [(entry_of 1 t1 [])\<lparr>timerId := Some 1\<rparr>]" "allStarted one_started = True"
  "pending one_started =
     [\<lparr>a_handle = 1, a_recurring = True, a_delay = JNum (Finite 1000), a_desc = entry_of 1 t1 []\<rparr>]"
  "nextId one_started = 2" "log_of one_started = []" "objs one_started (Suc 0) = t1"
  "objs one_started 2 = t2" "extensible one_started 0" "logData one_started = 0"
  by (simp_all add: one_started_def t1_def t2_def method_defs log_of_def)


lemma one_fired_fields:
  "log_of one_fired =
     [\<lparr>l_name = JStr ''t1'', l_in = [], l_out = JUndefined, l_created = 1000, l_error = None\<rparr>]"
  "pending one_fired =
     [\<lparr>a_handle = 1, a_recurring = True, a_delay = JNum (Finite 1000), a_desc = entry_of 1 t1 []\<rparr>]"
  "timers one_fired = [(entry_of 1 t1 [])\<lparr>timerId := Some 1\<rparr>]"
  "logData one_fired = 0" "extensible one_fired 0" "objs one_fired (Suc 0) = t1"
  by (simp_all add: one_fired_def t1_def method_defs log_of_def)

lemma t2_fired_fields:
  "log_of t2_fired =
     [\<lparr>l_name = JStr ''t2'', l_in = [JNum (Finite 1), JNum (Finite 2)], l_out = JNum (Finite 3),
       l_created = 1000, l_error = None\<rparr>]"
  "pending t2_fired = []" "logData t2_fired = 0" "extensible t2_fired 0"
  by (simp_all add: t2_fired_def t2_def method_defs log_of_def)

subsection \<open>The search by name\<close>

text \<open>
  \<open>findIndex\<close> returns -1 or the first position that passes the test, which lies inside
  the list.
\<close>

lemma findIndex_ge: "- 1 \<le> findIndex P xs"
  by (induction xs) (auto simp: Let_def)

lemma findIndex_neg_iff: "findIndex P xs < 0 \<longleftrightarrow> findIndex P xs = - 1"
  using findIndex_ge [of P xs] by auto

lemma findIndex_lt_length: "findIndex P xs < int (length xs)"
  by (induction xs) (auto simp: Let_def)

lemma findIndex_found_iff: "0 \<le> findIndex P xs \<longleftrightarrow> (\<exists>x \<in> set xs. P x)"
  by (induction xs) (auto simp: Let_def)

lemma findIndex_nth: "0 \<le> findIndex P xs \<Longrightarrow> P (xs ! nat (findIndex P xs))"
proof (induction xs)
  case Nil
  then show ?case by simp
next
  case (Cons x xs)
  show ?case
  proof (cases "P x")
    case True
    then show ?thesis by simp
  next
    case False
    with Cons.prems have r: "0 \<le> findIndex P xs"
      by (simp add: Let_def split: if_splits)
    with Cons.IH have "P (xs ! nat (findIndex P xs))" by simp
    with False r show ?thesis
      by (simp add: Let_def nat_add_distrib)
  qed
qed

lemma findIndex_first: "j < nat (findIndex P xs) \<Longrightarrow> \<not> P (xs ! j)"
proof (induction xs arbitrary: j)
  case Nil
  then show ?case by simp
next
  case (Cons x xs)
  show ?case
  proof (cases "P x")
    case True
    with Cons.prems show ?thesis by simp
  next
    case False
    show ?thesis
    proof (cases j)
      case 0
      with False show ?thesis by simp
    next
      case (Suc k)
      with Cons.prems False have "k < nat (findIndex P xs)"
        by (simp add: Let_def nat_add_distrib split: if_splits)
      with Cons.IH Suc show ?thesis by simp
    qed
  qed
qed

lemma strict_eq_JStr [simp]: "strict_eq v (JStr n) = (v = JStr n)"
  by (cases v) auto

lemma p_findTimerIndex_JStr:
  "n \<noteq> [] \<Longrightarrow> p_findTimerIndex (JStr n) s = Inr (findIndex (\<lambda>d. name d = JStr n) (timers s))"
  by (simp add: p_findTimerIndex_def)

lemma p_findTimerIndex_Inr:
  "p_findTimerIndex v s = Inr i \<Longrightarrow>
     \<exists>n. v = JStr n \<and> n \<noteq> [] \<and> i = findIndex (\<lambda>d. name d = JStr n) (timers s)"
  by (cases v) (auto simp: p_findTimerIndex_def split: if_splits)

subsection \<open>Registration\<close>

lemma typeof_string_iff: "typeof v = ''string'' \<longleftrightarrow> (\<exists>n. v = JStr n)"
  by (cases v) auto

lemma typeof_number_iff: "typeof v = ''number'' \<longleftrightarrow> (\<exists>x. v = JNum x)"
  by (cases v) auto

lemma valid_name_cases:
  assumes "typeof v = ''string''" "truthy v"
  obtains n where "v = JStr n" "n \<noteq> []"
  using assms by (cases v) auto

lemma not_registered_findIndex:
  "\<not> registered (JStr n) s \<Longrightarrow> findIndex (\<lambda>d. name d = JStr n) (timers s) = - 1"
  using findIndex_found_iff [of "\<lambda>d. name d = JStr n" "timers s"]
    findIndex_ge [of "\<lambda>d. name d = JStr n" "timers s"]
  by (auto simp: registered_def list_ex_iff)

lemma registered_findIndex:
  "registered (JStr n) s \<Longrightarrow> 0 \<le> findIndex (\<lambda>d. name d = JStr n) (timers s)"
  using findIndex_found_iff [of "\<lambda>d. name d = JStr n" "timers s"]
  by (auto simp: registered_def list_ex_iff)

lemma in_range_iff: "x \<noteq> NaN \<Longrightarrow> in_range x \<longleftrightarrow> \<not> (num_lt x (Finite 0) \<or> num_lt (Finite 5000) x)"
  by (cases x) (auto simp: in_range_def)



lemma add_Inl_state: "fst (add r ps s) = Inl e \<Longrightarrow> snd (add r ps s) = s"
  by (auto simp: add_def Let_def split: if_splits sum.splits jsval.splits)

lemma add_error_kinds:
  assumes "fst (add r ps s) = Inl e"
  shows "e = Error ''Can not add new timer after start!'' \<or>
         e = TypeError ''Timer name must be string type!'' \<or>
         (\<exists>n. name (objs s r) = JStr n \<and> e = Error (''Timer '' @ dquote @ n @ dquote @ '' already exists!'')) \<or>
         e = TypeError ''Timer delay must be numeric type!'' \<or>
         e = RangeError ''Timer delay must be in range [0..5000]!'' \<or>
         e = TypeError ''Timer interval must be boolean type!'' \<or>
         e = TypeError ''Timer job must be a function!''"
proof (cases "allStarted s")
  case True
  with assms show ?thesis by (simp add: add_def Let_def)
next
  case False
  note off = this
  show ?thesis
  proof (cases "p_findTimerIndex (name (objs s r)) s")
    case (Inl e')
    with assms off have "e = e'" by (simp add: add_def Let_def)
    moreover from Inl have "e' = TypeError ''Timer name must be string type!''"
      by (simp add: p_findTimerIndex_def split: if_splits)
    ultimately show ?thesis by simp
  next
    case (Inr i)
    then obtain n where n: "name (objs s r) = JStr n" "n \<noteq> []"
      by (auto dest: p_findTimerIndex_Inr)
    show ?thesis
    proof (cases "0 \<le> i")
      case True
      with assms off Inr n show ?thesis by (simp add: add_def Let_def)
    next
      case False
      with assms off Inr show ?thesis
        by (cases "delay (objs s r)") (simp_all add: add_def Let_def split: if_splits)
    qed
  qed
qed

subsection \<open>Arming and disarming\<close>

text \<open>
  What \<^verbatim>\<open>_startTimer\<close>, \<^verbatim>\<open>_stopTimer\<close> and the two loops change, and what they leave.
\<close>

lemma p_stopTimer_frame:
  "timers (p_stopTimer d s) = timers s" "allStarted (p_stopTimer d s) = allStarted s"
  "logData (p_stopTimer d s) = logData s" "arrays (p_stopTimer d s) = arrays s"
  "nextId (p_stopTimer d s) = nextId s" "objs (p_stopTimer d s) = objs s"
  "extensible (p_stopTimer d s) = extensible s"
  by (simp_all add: p_stopTimer_def clearInterval_def clearTimeout_def clear_timer_def
      split: option.splits)

lemma p_stopTimer_pending:
  "pending (p_stopTimer d s) =
     (case timerId d of None \<Rightarrow> pending s
      | Some h \<Rightarrow> filter (\<lambda>a. a_handle a \<noteq> h) (pending s))"
  by (simp add: p_stopTimer_def clearInterval_def clearTimeout_def clear_timer_def
      split: option.splits)

lemma p_stopTimer_None: "timerId d = None \<Longrightarrow> p_stopTimer d s = s"
  by (simp add: p_stopTimer_def)

lemma p_startTimer_frame:
  "timers (snd (p_startTimer d s)) = timers s"
  "allStarted (snd (p_startTimer d s)) = allStarted s"
  "logData (snd (p_startTimer d s)) = logData s"
  "arrays (snd (p_startTimer d s)) = arrays s"
  "objs (snd (p_startTimer d s)) = objs s"
  "extensible (snd (p_startTimer d s)) = extensible s"
  by (simp_all add: p_startTimer_def setInterval_def setTimeout_def set_timer_def)

lemma p_startTimer_None:
  "timerId d = None \<Longrightarrow>
     p_startTimer d s =
       (Some (nextId s),
        s\<lparr>pending := pending s @
             [\<lparr>a_handle = nextId s, a_recurring = truthy (interval d), a_delay = delay d,
               a_desc = d\<rparr>],
          nextId := Suc (nextId s)\<rparr>)"
  by (simp add: p_startTimer_def setInterval_def setTimeout_def set_timer_def)

lemma p_startTimer_Some: "timerId d = Some h \<Longrightarrow> p_startTimer d s = (None, s)"
  by (simp add: p_startTimer_def)


lemma stop_each_fst: "fst (stop_each ds s) = map (\<lambda>d. d\<lparr>timerId := None\<rparr>) ds"
proof (induction ds arbitrary: s)
  case Nil
  then show ?case by simp
next
  case (Cons d ds)
  obtain ds' s2 where r: "stop_each ds (p_stopTimer d s) = (ds', s2)"
    by (cases "stop_each ds (p_stopTimer d s)")
  from Cons [of "p_stopTimer d s"] r show ?case by simp
qed

lemma stop_each_frame:
  "timers (snd (stop_each ds s)) = timers s \<and> allStarted (snd (stop_each ds s)) = allStarted s \<and>
   logData (snd (stop_each ds s)) = logData s \<and> arrays (snd (stop_each ds s)) = arrays s \<and>
   nextId (snd (stop_each ds s)) = nextId s \<and> objs (snd (stop_each ds s)) = objs s \<and>
   extensible (snd (stop_each ds s)) = extensible s"
proof (induction ds arbitrary: s)
  case Nil
  then show ?case by simp
next
  case (Cons d ds)
  obtain ds' s2 where r: "stop_each ds (p_stopTimer d s) = (ds', s2)"
    by (cases "stop_each ds (p_stopTimer d s)")
  from Cons [of "p_stopTimer d s"] r show ?case by (simp add: p_stopTimer_frame)
qed

lemma start_each_frame:
  "timers (snd (start_each ds s)) = timers s \<and> allStarted (snd (start_each ds s)) = allStarted s \<and>
   logData (snd (start_each ds s)) = logData s \<and> arrays (snd (start_each ds s)) = arrays s \<and>
   objs (snd (start_each ds s)) = objs s \<and> extensible (snd (start_each ds s)) = extensible s"
proof (induction ds arbitrary: s)
  case Nil
  then show ?case by simp
next
  case (Cons d ds)
  obtain h s1 where p: "p_startTimer d s = (h, s1)" by (cases "p_startTimer d s")
  obtain ds' s2 where r: "start_each ds s1 = (ds', s2)" by (cases "start_each ds s1")
  from Cons [of s1] r p_startTimer_frame [of d s] p show ?case by simp
qed

lemma start_each_length: "length (fst (start_each ds s)) = length ds"
proof (induction ds arbitrary: s)
  case Nil
  then show ?case by simp
next
  case (Cons d ds)
  obtain h s1 where p: "p_startTimer d s = (h, s1)" by (cases "p_startTimer d s")
  obtain ds' s2 where r: "start_each ds s1 = (ds', s2)" by (cases "start_each ds s1")
  from Cons [of s1] r p show ?case by simp
qed








subsection \<open>Pause and resume\<close>

lemma pause_found:
  assumes "n \<noteq> []" "0 \<le> findIndex (\<lambda>d. name d = JStr n) (timers s)"
  shows "pause (JStr n) s =
     (let i = nat (findIndex (\<lambda>d. name d = JStr n) (timers s)); s' = p_stopTimer (timers s ! i) s
      in (Inr (findIndex (\<lambda>d. name d = JStr n) (timers s)),
          s'\<lparr>timers := (timers s)[i := (timers s ! i)\<lparr>timerId := None\<rparr>]\<rparr>))"
  using assms by (simp add: pause_def p_findTimerIndex_JStr Let_def p_stopTimer_frame)

lemma pause_not_found:
  assumes "n \<noteq> []" "findIndex (\<lambda>d. name d = JStr n) (timers s) < 0"
  shows "pause (JStr n) s = (Inr (findIndex (\<lambda>d. name d = JStr n) (timers s)), s)"
  using assms by (simp add: pause_def p_findTimerIndex_JStr)

lemma resume_found:
  assumes "n \<noteq> []" "0 \<le> findIndex (\<lambda>d. name d = JStr n) (timers s)"
  shows "resume (JStr n) s =
     (let i = nat (findIndex (\<lambda>d. name d = JStr n) (timers s));
          (h, s') = p_startTimer (timers s ! i) s
      in (Inr (findIndex (\<lambda>d. name d = JStr n) (timers s)),
          s'\<lparr>timers := (timers s)[i := (timers s ! i)\<lparr>timerId := h\<rparr>]\<rparr>))"
proof -
  obtain h s' where p: "p_startTimer (timers s ! nat (findIndex (\<lambda>d. name d = JStr n) (timers s))) s = (h, s')"
    by (cases "p_startTimer (timers s ! nat (findIndex (\<lambda>d. name d = JStr n) (timers s))) s")
  from p_startTimer_frame(1) [of "timers s ! nat (findIndex (\<lambda>d. name d = JStr n) (timers s))" s] p
  have "timers s' = timers s" by simp
  with assms p show ?thesis
    by (simp add: resume_def p_findTimerIndex_JStr Let_def)
qed

lemma resume_not_found:
  assumes "n \<noteq> []" "findIndex (\<lambda>d. name d = JStr n) (timers s) < 0"
  shows "resume (JStr n) s = (Inr (findIndex (\<lambda>d. name d = JStr n) (timers s)), s)"
  using assms by (simp add: resume_def p_findTimerIndex_JStr)

lemma fst_pause: "n \<noteq> [] \<Longrightarrow> fst (pause (JStr n) s) = Inr (findIndex (\<lambda>d. name d = JStr n) (timers s))"
  by (cases "0 \<le> findIndex (\<lambda>d. name d = JStr n) (timers s)")
     (simp_all add: pause_found pause_not_found Let_def)

lemma fst_resume: "n \<noteq> [] \<Longrightarrow> fst (resume (JStr n) s) = Inr (findIndex (\<lambda>d. name d = JStr n) (timers s))"
  by (cases "0 \<le> findIndex (\<lambda>d. name d = JStr n) (timers s)")
     (simp_all add: resume_found resume_not_found Let_def split: prod.splits)

lemma pause_idle:
  assumes "n \<noteq> []" "0 \<le> findIndex (\<lambda>d. name d = JStr n) (timers s)"
    "timerId (timers s ! nat (findIndex (\<lambda>d. name d = JStr n) (timers s))) = None"
  shows "snd (pause (JStr n) s) = s"
proof -
  let ?i = "nat (findIndex (\<lambda>d. name d = JStr n) (timers s))"
  have "(timers s ! ?i)\<lparr>timerId := None\<rparr> = timers s ! ?i"
    using assms(3) by simp
  then have "(timers s)[?i := (timers s ! ?i)\<lparr>timerId := None\<rparr>] = timers s"
    by simp
  with assms show ?thesis
    by (simp add: pause_found Let_def p_stopTimer_None)
qed

lemma splice1_delete_at: "0 \<le> idx \<Longrightarrow> splice1 idx xs = delete_at (nat idx) xs"
  by (cases "nat idx < length xs") (auto simp: splice1_def delete_at_def Let_def min_def)

subsection \<open>What every reachable state satisfies\<close>

text \<open>
  Each method and each firing keeps \<open>arm_ok\<close>; a new manager satisfies it.
\<close>

lemma plat_ok_iff: "plat_ok s \<longleftrightarrow> (\<forall>a \<in> set (pending s). a_handle a < nextId s)"
  by (simp add: plat_ok_def list_all_iff)

lemma desc_ok_iff:
  "desc_ok d s \<longleftrightarrow>
     (\<forall>h. timerId d = Some h \<longrightarrow>
        h < nextId s \<and>
        (\<forall>a \<in> set (pending s). a_handle a = h \<longrightarrow> a_desc a = d\<lparr>timerId := None\<rparr>))"
  by (simp add: desc_ok_def list_all_iff split: option.splits)

lemma arm_ok_iff: "arm_ok s \<longleftrightarrow> plat_ok s \<and> (\<forall>d \<in> set (timers s). desc_ok d s)"
  by (simp add: arm_ok_def list_all_iff)

lemma desc_ok_None: "timerId d = None \<Longrightarrow> desc_ok d s"
  by (simp add: desc_ok_iff)

lemma desc_ok_shrink:
  "desc_ok d s \<Longrightarrow> set (pending s') \<subseteq> set (pending s) \<Longrightarrow> nextId s' = nextId s \<Longrightarrow> desc_ok d s'"
  by (auto simp: desc_ok_iff)

lemma plat_ok_shrink:
  "plat_ok s \<Longrightarrow> set (pending s') \<subseteq> set (pending s) \<Longrightarrow> nextId s' = nextId s \<Longrightarrow> plat_ok s'"
  by (auto simp: plat_ok_iff)

lemma p_stopTimer_pending_subset: "set (pending (p_stopTimer d s)) \<subseteq> set (pending s)"
  by (auto simp: p_stopTimer_pending split: option.splits)

lemma p_startTimer_plat_ok: "plat_ok s \<Longrightarrow> plat_ok (snd (p_startTimer d s))"
  by (cases "timerId d") (auto simp: p_startTimer_None p_startTimer_Some plat_ok_iff less_Suc_eq)

lemma p_startTimer_desc_ok_other:
  "plat_ok s \<Longrightarrow> desc_ok d' s \<Longrightarrow> desc_ok d' (snd (p_startTimer d s))"
  by (cases "timerId d") (auto simp: p_startTimer_None p_startTimer_Some desc_ok_iff less_Suc_eq)

lemma p_startTimer_desc_ok_self:
  "plat_ok s \<Longrightarrow> desc_ok (d\<lparr>timerId := fst (p_startTimer d s)\<rparr>) (snd (p_startTimer d s))"
  by (cases "timerId d") (auto simp: p_startTimer_None p_startTimer_Some desc_ok_iff plat_ok_iff)

lemma start_each_plat_ok: "plat_ok s \<Longrightarrow> plat_ok (snd (start_each ds s))"
proof (induction ds arbitrary: s)
  case Nil
  then show ?case by simp
next
  case (Cons d ds)
  obtain h s1 where p: "p_startTimer d s = (h, s1)" by (cases "p_startTimer d s")
  obtain ds' s2 where r: "start_each ds s1 = (ds', s2)" by (cases "start_each ds s1")
  from p_startTimer_plat_ok [OF Cons.prems, of d] p have "plat_ok s1" by simp
  with Cons.IH [of s1] r p show ?case by simp
qed

lemma start_each_desc_ok_other:
  "plat_ok s \<Longrightarrow> desc_ok d' s \<Longrightarrow> desc_ok d' (snd (start_each ds s))"
proof (induction ds arbitrary: s)
  case Nil
  then show ?case by simp
next
  case (Cons d ds)
  obtain h s1 where p: "p_startTimer d s = (h, s1)" by (cases "p_startTimer d s")
  obtain ds' s2 where r: "start_each ds s1 = (ds', s2)" by (cases "start_each ds s1")
  from p_startTimer_plat_ok [OF Cons.prems(1), of d] p have 1: "plat_ok s1" by simp
  from p_startTimer_desc_ok_other [OF Cons.prems, of d] p have 2: "desc_ok d' s1" by simp
  from Cons.IH [OF 1 2] r p show ?case by simp
qed

lemma start_each_desc_ok:
  "plat_ok s \<Longrightarrow> \<forall>d' \<in> set (fst (start_each ds s)). desc_ok d' (snd (start_each ds s))"
proof (induction ds arbitrary: s)
  case Nil
  then show ?case by simp
next
  case (Cons d ds)
  obtain h s1 where p: "p_startTimer d s = (h, s1)" by (cases "p_startTimer d s")
  obtain ds' s2 where r: "start_each ds s1 = (ds', s2)" by (cases "start_each ds s1")
  from p_startTimer_plat_ok [OF Cons.prems(1), of d] p have 1: "plat_ok s1" by simp
  from p_startTimer_desc_ok_self [OF Cons.prems, of d] p have "desc_ok (d\<lparr>timerId := h\<rparr>) s1"
    by simp
  from start_each_desc_ok_other [OF 1 this, of ds] r have hd: "desc_ok (d\<lparr>timerId := h\<rparr>) s2"
    by simp
  from Cons.IH [OF 1] r have "\<forall>d' \<in> set ds'. desc_ok d' s2" by simp
  with hd p r show ?case by simp
qed

lemma stop_each_pending_subset: "set (pending (snd (stop_each ds s))) \<subseteq> set (pending s)"
proof (induction ds arbitrary: s)
  case Nil
  then show ?case by simp
next
  case (Cons d ds)
  obtain ds' s2 where r: "stop_each ds (p_stopTimer d s) = (ds', s2)"
    by (cases "stop_each ds (p_stopTimer d s)")
  from Cons [of "p_stopTimer d s"] r p_stopTimer_pending_subset [of d s] show ?case by auto
qed

lemma add_Inr_state:
  "fst (add r ps s) = Inr u \<Longrightarrow>
     snd (add r ps s) =
       s\<lparr>objs := (objs s)(r := (objs s r)\<lparr>callbackParams := ps\<rparr>),
         timers := timers s @ [entry_of r (objs s r) ps]\<rparr>"
  by (auto simp: add_def Let_def split: if_splits sum.splits jsval.splits)

lemma arm_ok_add: "arm_ok s \<Longrightarrow> arm_ok (snd (add r ps s))"
proof (cases "fst (add r ps s)")
  case (Inl e)
  assume "arm_ok s"
  with add_Inl_state [OF Inl] show ?thesis by simp
next
  case (Inr u)
  assume i: "arm_ok s"
  from add_Inr_state [OF Inr] i show ?thesis
    by (auto simp: arm_ok_iff plat_ok_iff desc_ok_iff entry_of_def)
qed

lemma arm_ok_start: "arm_ok s \<Longrightarrow> arm_ok (start s)"
proof (cases "allStarted s")
  case True
  assume "arm_ok s"
  with True show ?thesis by (simp add: start_def arm_ok_iff plat_ok_iff desc_ok_iff)
next
  case False
  assume i: "arm_ok s"
  then have p: "plat_ok s" by (simp add: arm_ok_iff)
  obtain ds s1 where r: "start_each (timers s) s = (ds, s1)" by (cases "start_each (timers s) s")
  from start_each_plat_ok [OF p, of "timers s"] r have 1: "plat_ok s1" by simp
  from start_each_desc_ok [OF p, of "timers s"] r have 2: "\<forall>d \<in> set ds. desc_ok d s1" by simp
  from False r have "start s = s1\<lparr>timers := ds, allStarted := True\<rparr>" by (simp add: start_def)
  with 1 2 show ?thesis by (simp add: arm_ok_iff plat_ok_iff desc_ok_iff)
qed

lemma arm_ok_stop: "arm_ok s \<Longrightarrow> arm_ok (stop s)"
proof (cases "allStarted s")
  case False
  assume "arm_ok s"
  with False show ?thesis by (simp add: stop_def arm_ok_iff plat_ok_iff desc_ok_iff)
next
  case True
  assume i: "arm_ok s"
  obtain ds s1 where r: "stop_each (timers s) s = (ds, s1)" by (cases "stop_each (timers s) s")
  from stop_each_fst [of "timers s" s] r have ds: "ds = map (\<lambda>d. d\<lparr>timerId := None\<rparr>) (timers s)"
    by simp
  from stop_each_pending_subset [of "timers s" s] r have sub: "set (pending s1) \<subseteq> set (pending s)"
    by simp
  from stop_each_frame [of "timers s" s] r have n: "nextId s1 = nextId s" by simp
  from i have "plat_ok s" by (simp add: arm_ok_iff)
  then have "plat_ok s1" using sub n by (rule plat_ok_shrink)
  moreover from True r have "stop s = s1\<lparr>timers := ds, allStarted := False\<rparr>"
    by (simp add: stop_def)
  ultimately show ?thesis using ds by (auto simp: arm_ok_iff plat_ok_iff desc_ok_iff)
qed

lemma arm_ok_pause: "arm_ok s \<Longrightarrow> arm_ok (snd (pause tn s))"
proof (cases "p_findTimerIndex tn s")
  case (Inl e)
  assume "arm_ok s"
  with Inl show ?thesis by (simp add: pause_def)
next
  case (Inr idx)
  assume i: "arm_ok s"
  show ?thesis
  proof (cases "0 \<le> idx")
    case False
    with Inr i show ?thesis by (simp add: pause_def)
  next
    case True
    let ?s' = "p_stopTimer (timers s ! nat idx) s"
    from True Inr have eq: "snd (pause tn s) =
        ?s'\<lparr>timers := (timers s)[nat idx := (timers s ! nat idx)\<lparr>timerId := None\<rparr>]\<rparr>"
      by (simp add: pause_def Let_def p_stopTimer_frame)
    have sub: "set (pending ?s') \<subseteq> set (pending s)" by (rule p_stopTimer_pending_subset)
    have n: "nextId ?s' = nextId s" by (simp add: p_stopTimer_frame)
    from i have "plat_ok ?s'" using sub n by (auto simp: arm_ok_iff intro: plat_ok_shrink)
    moreover have "desc_ok d ?s'" if "d \<in> set ((timers s)[nat idx := (timers s ! nat idx)\<lparr>timerId := None\<rparr>])" for d
    proof -
      from that have "d = (timers s ! nat idx)\<lparr>timerId := None\<rparr> \<or> d \<in> set (timers s)"
        by (auto dest: set_update_subset_insert [THEN subsetD])
      then show ?thesis
      proof
        assume "d = (timers s ! nat idx)\<lparr>timerId := None\<rparr>"
        then show ?thesis by (simp add: desc_ok_None)
      next
        assume "d \<in> set (timers s)"
        with i have "desc_ok d s" by (simp add: arm_ok_iff)
        then show ?thesis using sub n by (rule desc_ok_shrink)
      qed
    qed
    ultimately show ?thesis unfolding eq by (simp add: arm_ok_iff plat_ok_iff desc_ok_iff)
  qed
qed

lemma arm_ok_resume: "arm_ok s \<Longrightarrow> arm_ok (snd (resume tn s))"
proof (cases "p_findTimerIndex tn s")
  case (Inl e)
  assume "arm_ok s"
  with Inl show ?thesis by (simp add: resume_def)
next
  case (Inr idx)
  assume i: "arm_ok s"
  then have p: "plat_ok s" by (simp add: arm_ok_iff)
  show ?thesis
  proof (cases "0 \<le> idx")
    case False
    with Inr i show ?thesis by (simp add: resume_def)
  next
    case True
    let ?d = "timers s ! nat idx"
    obtain h s' where r: "p_startTimer ?d s = (h, s')" by (cases "p_startTimer ?d s")
    from p_startTimer_frame(1) [of ?d s] r have t: "timers s' = timers s" by simp
    from True Inr r t have eq: "snd (resume tn s) = s'\<lparr>timers := (timers s)[nat idx := ?d\<lparr>timerId := h\<rparr>]\<rparr>"
      by (simp add: resume_def)
    from p_startTimer_plat_ok [OF p, of ?d] r have 1: "plat_ok s'" by simp
    from p_startTimer_desc_ok_self [OF p, of ?d] r have 2: "desc_ok (?d\<lparr>timerId := h\<rparr>) s'" by simp
    have "desc_ok d s'" if "d \<in> set ((timers s)[nat idx := ?d\<lparr>timerId := h\<rparr>])" for d
    proof -
      from that have "d = ?d\<lparr>timerId := h\<rparr> \<or> d \<in> set (timers s)"
        by (auto dest: set_update_subset_insert [THEN subsetD])
      then show ?thesis
      proof
        assume "d = ?d\<lparr>timerId := h\<rparr>"
        with 2 show ?thesis by simp
      next
        assume "d \<in> set (timers s)"
        with i have "desc_ok d s" by (simp add: arm_ok_iff)
        from p_startTimer_desc_ok_other [OF p this, of ?d] r show ?thesis by simp
      qed
    qed
    with 1 show ?thesis unfolding eq by (simp add: arm_ok_iff plat_ok_iff desc_ok_iff)
  qed
qed

lemma arm_ok_timers_subset:
  "arm_ok s \<Longrightarrow> set ds \<subseteq> set (timers s) \<Longrightarrow> arm_ok (s\<lparr>timers := ds\<rparr>)"
  by (auto simp: arm_ok_iff plat_ok_iff desc_ok_iff)

lemma set_delete_at: "set (delete_at i xs) \<subseteq> set xs"
  by (auto simp: delete_at_def dest: in_set_takeD in_set_dropD)

lemma arm_ok_remove: "arm_ok s \<Longrightarrow> arm_ok (snd (remove tn s))"
proof -
  assume i: "arm_ok s"
  obtain r s' where p: "pause tn s = (r, s')" by (cases "pause tn s")
  from arm_ok_pause [OF i, of tn] p have i': "arm_ok s'" by simp
  show ?thesis
  proof (cases r)
    case (Inl e)
    with p i' show ?thesis by (simp add: remove_def)
  next
    case (Inr idx)
    show ?thesis
    proof (cases "0 \<le> idx")
      case True
      have "arm_ok (s'\<lparr>timers := delete_at (nat idx) (timers s')\<rparr>)"
        using i' set_delete_at by (rule arm_ok_timers_subset)
      with True Inr p show ?thesis by (simp add: remove_def splice1_delete_at)
    next
      case False
      with Inr p i' show ?thesis by (simp add: remove_def)
    qed
  qed
qed

lemma push_cases:
  "push r x s = (Inr (), s\<lparr>arrays := (arrays s)(r := arrays s r @ [x])\<rparr>) \<and> extensible s r \<or>
   push r x s = (Inl push_error, s) \<and> \<not> extensible s r"
  by (simp add: push_def)

lemma readable_iff: "readable err \<longleftrightarrow> (\<exists>info. read_error err = Inr info)"
  by (cases "read_error err") (simp_all add: readable_def)

lemma p_log_ok:
  assumes "extensible s (logData s)" and "truthy err \<longrightarrow> readable err"
  shows "p_log r out err now s =
     (Inr (), s\<lparr>arrays := (arrays s)(logData s :=
                 arrays s (logData s) @ [log_entry_for r out err now s])\<rparr>)"
proof (cases "truthy err")
  case False
  with assms(1) show ?thesis by (simp add: p_log_def push_def log_entry_for_def)
next
  case True
  with assms(2) obtain info where "read_error err = Inr info" by (auto simp: readable_iff)
  with True assms(1) show ?thesis by (simp add: p_log_def push_def log_entry_for_def)
qed

lemma p_log_fails:
  assumes "\<not> extensible s (logData s) \<or> truthy err \<and> \<not> readable err"
  shows "\<exists>v. p_log r out err now s = (Inl v, s)"
proof (cases "truthy err")
  case False
  with assms show ?thesis by (simp add: p_log_def push_def)
next
  case True
  show ?thesis
  proof (cases "read_error err")
    case (Inl e)
    with True show ?thesis by (simp add: p_log_def)
  next
    case (Inr info)
    then have "readable err" by (simp add: readable_def)
    with assms True have "\<not> extensible s (logData s)" by simp
    with True Inr show ?thesis by (simp add: p_log_def push_def)
  qed
qed

lemma readable_push_error: "readable push_error" "truthy push_error"
  by (simp_all add: readable_def read_error_def push_error_def)

text \<open>
  \<open>safeJob\<close> writes one entry and ends normally exactly when \<open>log_accepts\<close> holds; otherwise
  a value leaves it and nothing is written.
\<close>

lemma safeJob_ok:
  assumes "log_accepts oc s"
  shows "safeJob d oc now s =
     (None, s\<lparr>arrays := (arrays s)(logData s :=
               arrays s (logData s) @ [entry_of_firing d oc now s])\<rparr>)"
proof (cases oc)
  case (Returned v)
  from assms have "extensible s (logData s)" by (simp add: log_accepts_def)
  then have "p_log (oid d) v JUndefined now s =
     (Inr (), s\<lparr>arrays := (arrays s)(logData s :=
                 arrays s (logData s) @ [log_entry_for (oid d) v JUndefined now s])\<rparr>)"
    by (rule p_log_ok) simp
  with Returned show ?thesis by (simp add: safeJob_def try_block_def entry_of_firing_def)
next
  case (Threw err)
  from assms Threw have "extensible s (logData s)" "truthy err \<longrightarrow> readable err"
    by (simp_all add: log_accepts_def)
  then have "p_log (oid d) JNull err now s =
     (Inr (), s\<lparr>arrays := (arrays s)(logData s :=
                 arrays s (logData s) @ [log_entry_for (oid d) JNull err now s])\<rparr>)"
    by (rule p_log_ok)
  with Threw show ?thesis by (simp add: safeJob_def try_block_def entry_of_firing_def)
qed

lemma safeJob_escapes:
  assumes "\<not> log_accepts oc s"
  shows "\<exists>v. safeJob d oc now s = (Some v, s)"
proof (cases oc)
  case (Returned v)
  with assms have closed: "\<not> extensible s (logData s)" by (simp add: log_accepts_def)
  then obtain e where 1: "p_log (oid d) v JUndefined now s = (Inl e, s)"
    using p_log_fails [of s JUndefined "oid d" v now] by auto
  from closed obtain e' where 2: "p_log (oid d) v e now s = (Inl e', s)"
    using p_log_fails [of s e "oid d" v now] by auto
  from Returned 1 2 show ?thesis by (simp add: safeJob_def try_block_def)
next
  case (Threw err)
  with assms have "\<not> extensible s (logData s) \<or> truthy err \<and> \<not> readable err"
    by (auto simp: log_accepts_def)
  then obtain e where "p_log (oid d) JNull err now s = (Inl e, s)"
    using p_log_fails [of s err "oid d" JNull now] by auto
  with Threw show ?thesis by (simp add: safeJob_def try_block_def)
qed

lemma fire_not_armed:
  "find (\<lambda>a. a_handle a = h) (pending s) = None \<Longrightarrow> fire h oc now s = NotArmed"
  by (simp add: fire_def)

text \<open>The state after the platform has run a callback: a one-shot timer is gone.\<close>

lemma fire_armed:
  assumes "find (\<lambda>a. a_handle a = h) (pending s) = Some a" and "log_accepts oc s"
  shows "fire h oc now s =
     Fired (if a_recurring a
            then s\<lparr>arrays := (arrays s)(logData s :=
                     arrays s (logData s) @ [entry_of_firing (a_desc a) oc now s])\<rparr>
            else clear_timer h
                   (s\<lparr>arrays := (arrays s)(logData s :=
                        arrays s (logData s) @ [entry_of_firing (a_desc a) oc now s])\<rparr>))"
  using assms(1) by (simp add: fire_def safeJob_ok [OF assms(2)])

lemma fire_escapes:
  assumes "find (\<lambda>a. a_handle a = h) (pending s) = Some a" and "\<not> log_accepts oc s"
  shows "\<exists>v. fire h oc now s = Uncaught v (if a_recurring a then s else clear_timer h s)"
proof -
  from safeJob_escapes [OF assms(2), of "a_desc a" now]
  obtain v where "safeJob (a_desc a) oc now s = (Some v, s)" by blast
  with assms(1) show ?thesis by (simp add: fire_def)
qed

lemma arm_ok_frame:
  assumes "arm_ok s" and "set (pending s') \<subseteq> set (pending s)" and "nextId s' = nextId s"
    and "timers s' = timers s"
  shows "arm_ok s'"
  unfolding arm_ok_iff assms(4)
  using assms(1-3) by (auto simp: arm_ok_iff intro: plat_ok_shrink desc_ok_shrink)

lemma arm_ok_fire: "arm_ok s \<Longrightarrow> arm_ok (state_of (fire h oc now s) s)"
proof (cases "find (\<lambda>a. a_handle a = h) (pending s)")
  case None
  assume "arm_ok s"
  with None show ?thesis by (simp add: fire_not_armed)
next
  case (Some a)
  assume i: "arm_ok s"
  show ?thesis
  proof (cases "log_accepts oc s")
    case True
    let ?s1 = "s\<lparr>arrays := (arrays s)(logData s :=
                 arrays s (logData s) @ [entry_of_firing (a_desc a) oc now s])\<rparr>"
    have 1: "arm_ok ?s1" using i by (rule arm_ok_frame) simp_all
    have 2: "arm_ok (clear_timer h ?s1)"
      using i by (rule arm_ok_frame) (auto simp: clear_timer_def)
    from 1 2 show ?thesis by (simp add: fire_armed [OF Some True])
  next
    case False
    from fire_escapes [OF Some False, of now]
    obtain v where f: "fire h oc now s = Uncaught v (if a_recurring a then s else clear_timer h s)"
      by blast
    have "arm_ok (clear_timer h s)"
      using i by (rule arm_ok_frame) (auto simp: clear_timer_def)
    with i f show ?thesis by simp
  qed
qed

lemma arm_ok_step: "arm_ok s \<Longrightarrow> arm_ok (step x s)"
  by (cases x) (simp_all add: arm_ok_add arm_ok_start arm_ok_stop arm_ok_pause arm_ok_resume
      arm_ok_remove arm_ok_fire print_def)

text \<open>The elements of the registry stay in agreement with the stored objects.\<close>

lemma all_synced_iff: "all_synced s \<longleftrightarrow> (\<forall>d \<in> set (timers s). synced d s)"
  by (simp add: all_synced_def list_all_iff)

lemma synced_timerId [simp]: "synced (d\<lparr>timerId := h\<rparr>) s = synced d s"
  by (simp add: synced_def)

lemma synced_frame: "objs s' = objs s \<Longrightarrow> synced d s' = synced d s"
  by (simp add: synced_def)

lemma all_synced_frame:
  assumes "all_synced s" and "objs s' = objs s"
    and "\<forall>d' \<in> set (timers s'). \<exists>d \<in> set (timers s). \<exists>h. d' = d\<lparr>timerId := h\<rparr>"
  shows "all_synced s'"
  unfolding all_synced_iff
proof
  fix d' assume "d' \<in> set (timers s')"
  with assms(3) obtain d h where d: "d \<in> set (timers s)" "d' = d\<lparr>timerId := h\<rparr>" by blast
  from assms(1) d(1) have "synced d s" by (simp add: all_synced_iff)
  with d(2) show "synced d' s'" by (simp add: synced_frame [OF assms(2)])
qed

lemma same_timerId_update: "d = d\<lparr>timerId := timerId d\<rparr>"
  by simp

lemma all_synced_add: "all_synced s \<Longrightarrow> all_synced (snd (add r ps s))"
proof (cases "fst (add r ps s)")
  case (Inl e)
  assume "all_synced s"
  with add_Inl_state [OF Inl] show ?thesis by simp
next
  case (Inr u)
  assume i: "all_synced s"
  from Inr have off: "\<not> allStarted s"
    by (auto simp: add_def Let_def split: if_splits)
  from Inr off obtain idx where idx: "p_findTimerIndex (name (objs s r)) s = Inr idx" "idx < 0"
    by (auto simp: add_def Let_def split: if_splits sum.splits)
  from p_findTimerIndex_Inr [OF idx(1)] obtain n where
    n: "name (objs s r) = JStr n" "idx = findIndex (\<lambda>d. name d = JStr n) (timers s)"
    by blast
  from idx(2) n(2) findIndex_found_iff [of "\<lambda>d. name d = JStr n" "timers s"]
  have fresh: "\<forall>d \<in> set (timers s). name d \<noteq> JStr n" by auto
  have other: "oid d \<noteq> r" if "d \<in> set (timers s)" for d
  proof
    assume "oid d = r"
    moreover from i that have "synced d s" by (simp add: all_synced_iff)
    ultimately have "name d = JStr n" using n(1) by (simp add: synced_def)
    with fresh that show False by blast
  qed
  show ?thesis
    unfolding all_synced_iff add_Inr_state [OF Inr]
  proof
    fix d
    assume "d \<in> set (timers (s\<lparr>objs := (objs s)(r := (objs s r)\<lparr>callbackParams := ps\<rparr>),
               timers := timers s @ [entry_of r (objs s r) ps]\<rparr>))"
    then have "d \<in> set (timers s) \<or> d = entry_of r (objs s r) ps" by auto
    then show "synced d (s\<lparr>objs := (objs s)(r := (objs s r)\<lparr>callbackParams := ps\<rparr>),
               timers := timers s @ [entry_of r (objs s r) ps]\<rparr>)"
    proof
      assume d: "d \<in> set (timers s)"
      with i have "synced d s" by (simp add: all_synced_iff)
      with other [OF d] show ?thesis by (simp add: synced_def)
    next
      assume "d = entry_of r (objs s r) ps"
      then show ?thesis by (simp add: synced_def entry_of_def)
    qed
  qed
qed

lemma start_each_shape:
  "list_all2 (\<lambda>d d'. \<exists>h. d' = d\<lparr>timerId := h\<rparr>) ds (fst (start_each ds s))"
proof (induction ds arbitrary: s)
  case Nil
  then show ?case by simp
next
  case (Cons d ds)
  obtain h s1 where p: "p_startTimer d s = (h, s1)" by (cases "p_startTimer d s")
  obtain ds' s2 where r: "start_each ds s1 = (ds', s2)" by (cases "start_each ds s1")
  from Cons [of s1] r have "list_all2 (\<lambda>d d'. \<exists>h. d' = d\<lparr>timerId := h\<rparr>) ds ds'" by simp
  with p r show ?case by auto
qed

lemma list_all2_setD:
  assumes "list_all2 P xs ys" and "y \<in> set ys"
  shows "\<exists>x \<in> set xs. P x y"
  using assms by (induction rule: list_all2_induct) auto

lemma all_synced_start: "all_synced s \<Longrightarrow> all_synced (start s)"
proof (cases "allStarted s")
  case True
  assume "all_synced s"
  with True show ?thesis by (simp add: start_def all_synced_iff synced_def)
next
  case False
  assume i: "all_synced s"
  obtain ds s1 where r: "start_each (timers s) s = (ds, s1)" by (cases "start_each (timers s) s")
  from False r have eq: "start s = s1\<lparr>timers := ds, allStarted := True\<rparr>" by (simp add: start_def)
  from start_each_frame [of "timers s" s] r have o: "objs (start s) = objs s" by (simp add: eq)
  from start_each_shape [of "timers s" s] r
  have sh: "list_all2 (\<lambda>d d'. \<exists>h. d' = d\<lparr>timerId := h\<rparr>) (timers s) ds" by simp
  have "\<forall>d' \<in> set (timers (start s)). \<exists>d \<in> set (timers s). \<exists>h. d' = d\<lparr>timerId := h\<rparr>"
    using list_all2_setD [OF sh] by (simp add: eq)
  with i o show ?thesis by (rule all_synced_frame)
qed

lemma all_synced_stop: "all_synced s \<Longrightarrow> all_synced (stop s)"
proof (cases "allStarted s")
  case False
  assume "all_synced s"
  with False show ?thesis by (simp add: stop_def all_synced_iff synced_def)
next
  case True
  assume i: "all_synced s"
  obtain ds s1 where r: "stop_each (timers s) s = (ds, s1)" by (cases "stop_each (timers s) s")
  from True r have eq: "stop s = s1\<lparr>timers := ds, allStarted := False\<rparr>" by (simp add: stop_def)
  from stop_each_frame [of "timers s" s] r have o: "objs (stop s) = objs s" by (simp add: eq)
  from stop_each_fst [of "timers s" s] r have ds: "ds = map (\<lambda>d. d\<lparr>timerId := None\<rparr>) (timers s)"
    by simp
  have "\<forall>d' \<in> set (timers (stop s)). \<exists>d \<in> set (timers s). \<exists>h. d' = d\<lparr>timerId := h\<rparr>"
    by (auto simp: eq ds)
  with i o show ?thesis by (rule all_synced_frame)
qed

lemma timers_update_shape:
  "\<forall>d' \<in> set (ds[i := (ds ! i)\<lparr>timerId := h\<rparr>]). \<exists>d \<in> set ds. \<exists>h'. d' = d\<lparr>timerId := h'\<rparr>"
proof
  fix d' assume a: "d' \<in> set (ds[i := (ds ! i)\<lparr>timerId := h\<rparr>])"
  show "\<exists>d \<in> set ds. \<exists>h'. d' = d\<lparr>timerId := h'\<rparr>"
  proof (cases "i < length ds")
    case False
    then have "ds[i := (ds ! i)\<lparr>timerId := h\<rparr>] = ds" by (simp add: list_update_beyond)
    with a have "d' \<in> set ds" by simp
    with same_timerId_update [of d'] show ?thesis by blast
  next
    case True
    from a have "d' = (ds ! i)\<lparr>timerId := h\<rparr> \<or> d' \<in> set ds"
      by (auto dest: set_update_subset_insert [THEN subsetD])
    then show ?thesis
    proof
      assume "d' = (ds ! i)\<lparr>timerId := h\<rparr>"
      with True show ?thesis by (auto intro: nth_mem)
    next
      assume "d' \<in> set ds"
      with same_timerId_update [of d'] show ?thesis by blast
    qed
  qed
qed

lemma all_synced_pause: "all_synced s \<Longrightarrow> all_synced (snd (pause tn s))"
proof (cases "p_findTimerIndex tn s")
  case (Inl e)
  assume "all_synced s"
  with Inl show ?thesis by (simp add: pause_def)
next
  case (Inr idx)
  assume i: "all_synced s"
  show ?thesis
  proof (cases "0 \<le> idx")
    case False
    with Inr i show ?thesis by (simp add: pause_def)
  next
    case True
    let ?s' = "p_stopTimer (timers s ! nat idx) s"
    from True Inr have eq: "snd (pause tn s) =
        ?s'\<lparr>timers := (timers s)[nat idx := (timers s ! nat idx)\<lparr>timerId := None\<rparr>]\<rparr>"
      by (simp add: pause_def Let_def p_stopTimer_frame)
    have "\<forall>d' \<in> set (timers (snd (pause tn s))). \<exists>d \<in> set (timers s). \<exists>h. d' = d\<lparr>timerId := h\<rparr>"
      unfolding eq using timers_update_shape [of "timers s" "nat idx" None] by simp
    moreover have "objs (snd (pause tn s)) = objs s" by (simp add: eq p_stopTimer_frame)
    ultimately show ?thesis using i by (blast intro: all_synced_frame)
  qed
qed

lemma all_synced_resume: "all_synced s \<Longrightarrow> all_synced (snd (resume tn s))"
proof (cases "p_findTimerIndex tn s")
  case (Inl e)
  assume "all_synced s"
  with Inl show ?thesis by (simp add: resume_def)
next
  case (Inr idx)
  assume i: "all_synced s"
  show ?thesis
  proof (cases "0 \<le> idx")
    case False
    with Inr i show ?thesis by (simp add: resume_def)
  next
    case True
    let ?d = "timers s ! nat idx"
    obtain h s' where r: "p_startTimer ?d s = (h, s')" by (cases "p_startTimer ?d s")
    from p_startTimer_frame [of ?d s] r have t: "timers s' = timers s" "objs s' = objs s"
      by simp_all
    from True Inr r t have eq: "snd (resume tn s) = s'\<lparr>timers := (timers s)[nat idx := ?d\<lparr>timerId := h\<rparr>]\<rparr>"
      by (simp add: resume_def)
    have "\<forall>d' \<in> set (timers (snd (resume tn s))). \<exists>d \<in> set (timers s). \<exists>h. d' = d\<lparr>timerId := h\<rparr>"
      unfolding eq using timers_update_shape [of "timers s" "nat idx" h] by simp
    moreover have "objs (snd (resume tn s)) = objs s" by (simp add: eq t)
    ultimately show ?thesis using i by (blast intro: all_synced_frame)
  qed
qed

lemma all_synced_timers_subset:
  "all_synced s \<Longrightarrow> set ds \<subseteq> set (timers s) \<Longrightarrow> all_synced (s\<lparr>timers := ds\<rparr>)"
  by (auto simp: all_synced_iff synced_def)

lemma all_synced_remove: "all_synced s \<Longrightarrow> all_synced (snd (remove tn s))"
proof -
  assume i: "all_synced s"
  obtain r s' where p: "pause tn s = (r, s')" by (cases "pause tn s")
  from all_synced_pause [OF i, of tn] p have i': "all_synced s'" by simp
  show ?thesis
  proof (cases r)
    case (Inl e)
    with p i' show ?thesis by (simp add: remove_def)
  next
    case (Inr idx)
    show ?thesis
    proof (cases "0 \<le> idx")
      case True
      have "all_synced (s'\<lparr>timers := delete_at (nat idx) (timers s')\<rparr>)"
        using i' set_delete_at by (rule all_synced_timers_subset)
      with True Inr p show ?thesis by (simp add: remove_def splice1_delete_at)
    next
      case False
      with Inr p i' show ?thesis by (simp add: remove_def)
    qed
  qed
qed

lemma all_synced_fire: "all_synced s \<Longrightarrow> all_synced (state_of (fire h oc now s) s)"
proof (cases "find (\<lambda>a. a_handle a = h) (pending s)")
  case None
  assume "all_synced s"
  with None show ?thesis by (simp add: fire_not_armed)
next
  case (Some a)
  assume i: "all_synced s"
  show ?thesis
  proof (cases "log_accepts oc s")
    case True
    with i show ?thesis
      by (simp add: fire_armed [OF Some True] all_synced_iff synced_def clear_timer_def)
  next
    case False
    from fire_escapes [OF Some False, of now]
    obtain v where f: "fire h oc now s = Uncaught v (if a_recurring a then s else clear_timer h s)"
      by blast
    with i show ?thesis by (simp add: all_synced_iff synced_def clear_timer_def)
  qed
qed

lemma all_synced_step: "all_synced s \<Longrightarrow> all_synced (step x s)"
  by (cases x) (simp_all add: all_synced_add all_synced_start all_synced_stop all_synced_pause
      all_synced_resume all_synced_remove all_synced_fire print_def)

lemma wf_step: "wf_state s \<Longrightarrow> wf_state (step x s)"
  by (simp add: wf_state_def arm_ok_step all_synced_step)

lemma wf_run: "wf_state s \<Longrightarrow> wf_state (run xs s)"
  by (induction xs arbitrary: s) (simp_all add: wf_step)

lemma wf_constructor: "wf_state constructor"
  by (simp add: wf_state_def arm_ok_def all_synced_def plat_ok_def constructor_def)

lemma wf_fresh: "timers s = [] \<Longrightarrow> pending s = [] \<Longrightarrow> wf_state s"
  by (simp add: wf_state_def arm_ok_def all_synced_def plat_ok_def)


lemma wf_script: "wf_state script"
  by (simp add: wf_state_def arm_ok_def all_synced_def plat_ok_def script_fields)

text \<open>
  Every state that a new manager reaches by its methods and the firings of its timers,
  whatever objects the callers have made before (\<open>wf_fresh\<close> with \<open>wf_run\<close>).
\<close>

lemma wf_reachable: "wf_state (run xs constructor)" "wf_state (run xs script)"
  by (simp_all add: wf_run wf_constructor wf_script)


subsection \<open>The log\<close>


lemma p_log_log:
  "log_of (snd (p_log r out err now s)) =
     (case fst (p_log r out err now s) of
        Inl v \<Rightarrow> log_of s
      | Inr u \<Rightarrow> log_of s @ [log_entry_for r out err now s])"
proof (cases "extensible s (logData s) \<and> (truthy err \<longrightarrow> readable err)")
  case True
  then show ?thesis by (simp add: p_log_ok log_of_def)
next
  case False
  then obtain v where "p_log r out err now s = (Inl v, s)"
    using p_log_fails [of s err r out now] by auto
  then show ?thesis by simp
qed

lemma log_of_appended [simp]:
  "log_of (s\<lparr>arrays := (arrays s)(logData s := arrays s (logData s) @ [e])\<rparr>) = log_of s @ [e]"
  by (simp add: log_of_def)

lemma log_of_clear_timer: "log_of (clear_timer h s) = log_of s"
  by (simp add: clear_timer_def log_of_def)

lemma find_append_None: "find P xs = None \<Longrightarrow> find P (xs @ ys) = find P ys"
  by (induction xs) (auto split: if_splits)

lemma add_frame:
  "logData (snd (add r ps s)) = logData s" "arrays (snd (add r ps s)) = arrays s"
  "pending (snd (add r ps s)) = pending s" "allStarted (snd (add r ps s)) = allStarted s"
  "extensible (snd (add r ps s)) = extensible s"
  by (auto simp: add_def Let_def split: if_splits sum.splits jsval.splits)

lemma start_frame: "logData (start s) = logData s" "arrays (start s) = arrays s"
proof -
  obtain ds s1 where r: "start_each (timers s) s = (ds, s1)" by (cases "start_each (timers s) s")
  from start_each_frame [of "timers s" s] r
  show "logData (start s) = logData s" "arrays (start s) = arrays s"
    by (simp_all add: start_def)
qed

lemma stop_frame: "logData (stop s) = logData s" "arrays (stop s) = arrays s"
proof -
  obtain ds s1 where r: "stop_each (timers s) s = (ds, s1)" by (cases "stop_each (timers s) s")
  from stop_each_frame [of "timers s" s] r
  show "logData (stop s) = logData s" "arrays (stop s) = arrays s"
    by (simp_all add: stop_def)
qed

lemma pause_frame:
  "logData (snd (pause tn s)) = logData s" "arrays (snd (pause tn s)) = arrays s"
  "allStarted (snd (pause tn s)) = allStarted s"
  by (simp_all add: pause_def Let_def p_stopTimer_frame split: sum.splits)

lemma resume_frame_all:
  "logData (snd (resume tn s)) = logData s \<and> arrays (snd (resume tn s)) = arrays s \<and>
   allStarted (snd (resume tn s)) = allStarted s \<and> objs (snd (resume tn s)) = objs s \<and>
   extensible (snd (resume tn s)) = extensible s"
proof (cases "p_findTimerIndex tn s")
  case (Inl e)
  then show ?thesis by (simp add: resume_def)
next
  case (Inr idx)
  obtain h s' where r: "p_startTimer (timers s ! nat idx) s = (h, s')"
    by (cases "p_startTimer (timers s ! nat idx) s")
  from p_startTimer_frame [of "timers s ! nat idx" s] r
  have "logData s' = logData s" "arrays s' = arrays s" "allStarted s' = allStarted s"
    "objs s' = objs s" "extensible s' = extensible s" by simp_all
  with Inr r show ?thesis by (simp add: resume_def)
qed

lemma resume_frame:
  "logData (snd (resume tn s)) = logData s" "arrays (snd (resume tn s)) = arrays s"
  "allStarted (snd (resume tn s)) = allStarted s" "objs (snd (resume tn s)) = objs s"
  "extensible (snd (resume tn s)) = extensible s"
  using resume_frame_all [of tn s] by simp_all

lemma remove_frame:
  "logData (snd (remove tn s)) = logData s" "arrays (snd (remove tn s)) = arrays s"
proof -
  obtain r s' where p: "pause tn s = (r, s')" by (cases "pause tn s")
  from pause_frame [of tn s] p have "logData s' = logData s" "arrays s' = arrays s" by simp_all
  with p show "logData (snd (remove tn s)) = logData s" "arrays (snd (remove tn s)) = arrays s"
    by (simp_all add: remove_def split: sum.splits)
qed

subsection \<open>The checks of the delay\<close>

text \<open>
  With the flag off and a new, valid name, the range error is thrown exactly when one of the
  two comparisons of line 91 holds; for every number but NaN that is exactly outside the
  interval from 0 to 5000. A delay that is not a number gets the type error of line 88, and
  a failing call keeps the size of the registry.
\<close>

lemma add_delay_check:
  assumes "\<not> allStarted s" "typeof (name (objs s r)) = ''string''" "truthy (name (objs s r))"
    "\<not> registered (name (objs s r)) s"
  shows "(\<forall>x. delay (objs s r) = JNum x \<longrightarrow>
            (fst (add r ps s) = Inl (RangeError ''Timer delay must be in range [0..5000]!'')
               \<longleftrightarrow> num_lt x (Finite 0) \<or> num_lt (Finite 5000) x) \<and>
            (x \<noteq> NaN \<longrightarrow>
               (fst (add r ps s) = Inl (RangeError ''Timer delay must be in range [0..5000]!'')
                  \<longleftrightarrow> \<not> in_range x))) \<and>
         (typeof (delay (objs s r)) \<noteq> ''number'' \<longrightarrow>
            fst (add r ps s) = Inl (TypeError ''Timer delay must be numeric type!'')) \<and>
         (\<forall>e. fst (add r ps s) = Inl e \<longrightarrow> length (timers (snd (add r ps s))) = length (timers s))"
proof -
  from assms(2,3) obtain n where n: "name (objs s r) = JStr n" "n \<noteq> []" by (rule valid_name_cases)
  with assms(4) have i: "p_findTimerIndex (name (objs s r)) s = Inr (- 1)"
    by (simp add: p_findTimerIndex_JStr not_registered_findIndex)
  have num: "fst (add r ps s) = Inl (RangeError ''Timer delay must be in range [0..5000]!'')
               \<longleftrightarrow> num_lt x (Finite 0) \<or> num_lt (Finite 5000) x" if "delay (objs s r) = JNum x" for x
    using assms(1) i that by (simp add: add_def Let_def)
  have num': "fst (add r ps s) = Inl (RangeError ''Timer delay must be in range [0..5000]!'')
                  \<longleftrightarrow> \<not> in_range x" if "delay (objs s r) = JNum x" "x \<noteq> NaN" for x
    using num [OF that(1)] in_range_iff [OF that(2)] by simp
  have other: "fst (add r ps s) = Inl (TypeError ''Timer delay must be numeric type!'')"
    if "typeof (delay (objs s r)) \<noteq> ''number''"
    using assms(1) i that by (cases "delay (objs s r)") (simp_all add: add_def Let_def)
  have same: "length (timers (snd (add r ps s))) = length (timers s)" if "fst (add r ps s) = Inl e" for e
    using add_Inl_state [OF that] by simp
  from num num' other same show ?thesis by blast
qed

subsection \<open>Corner cases\<close>

text \<open>
  A thrown value that converts to false (\<^verbatim>\<open>throw 0\<close>, \<^verbatim>\<open>throw null\<close>) fails the test
  \<^verbatim>\<open>if (error)\<close> of \<^verbatim>\<open>_log\<close>: its entry has no error field.
\<close>

lemma falsy_throw_has_no_error_field:
  assumes "find (\<lambda>a. a_handle a = h) (pending s) = Some a" and "\<not> truthy err"
    and "extensible s (logData s)"
  shows "\<exists>s'. fire h (Threw err) now s = Fired s' \<and>
           log_of s' = log_of s @
             [\<lparr>l_name = name (objs s (oid (a_desc a))),
               l_in = callbackParams (objs s (oid (a_desc a))), l_out = JNull,
               l_created = now, l_error = None\<rparr>]"
proof -
  from assms(2,3) have "log_accepts (Threw err) s" by (simp add: log_accepts_def)
  from fire_armed [OF assms(1) this, of now] assms(2) show ?thesis
    by (simp add: entry_of_firing_def log_entry_for_def log_of_clear_timer)
qed

text \<open>
  When the array of the log takes no new element, or when reading the thrown value throws,
  \<^verbatim>\<open>_log\<close> throws inside the \<^verbatim>\<open>catch\<close> block: a value leaves \<^verbatim>\<open>safeJob\<close> and the log
  is as before.
\<close>

lemma throw_escapes_when_log_rejects:
  assumes "find (\<lambda>a. a_handle a = h) (pending s) = Some a" and "\<not> log_accepts oc s"
  shows "\<exists>v s'. fire h oc now s = Uncaught v s' \<and> log_of s' = log_of s"
  using fire_escapes [OF assms, of now] by (auto simp: log_of_clear_timer)

text \<open>
  \<^verbatim>\<open>resume\<close> on a descriptor that stores a handle arms nothing and clears the stored handle;
  the timer of that handle stays with the platform.
\<close>

lemma resume_armed_loses_handle:
  assumes "n \<noteq> []" and "registered (JStr n) s"
    and "timerId (timers s ! nat (findIndex (\<lambda>d. name d = JStr n) (timers s))) = Some h"
  shows "pending (snd (resume (JStr n) s)) = pending s \<and>
         timers (snd (resume (JStr n) s)) =
           (timers s)[nat (findIndex (\<lambda>d. name d = JStr n) (timers s)) :=
              (timers s ! nat (findIndex (\<lambda>d. name d = JStr n) (timers s)))\<lparr>timerId := None\<rparr>]"
  using assms(1) registered_findIndex [OF assms(2)] assms(3)
  by (simp add: resume_found p_startTimer_Some Let_def)



text \<open>
  The closure logs what the stored object holds when the timer fires: an object that was
  removed and registered again with other arguments, while a timer armed for it was still
  with the platform, is logged with the new arguments.
\<close>

lemma rebound_arguments_are_logged:
  "map l_in (log_of (run [Add 1 [JNum (Finite 1), JNum (Finite 2)], Resume (JStr ''t1''),
                          Resume (JStr ''t1''), Remove (JStr ''t1''),
                          Add 1 [JNum (Finite 9), JNum (Finite 9)],
                          Fire 1 (Returned JUndefined) 1000] script)) =
     [[JNum (Finite 9), JNum (Finite 9)]]"
  by (simp add: method_defs t1_def log_of_def)

section \<open>The properties\<close>




text \<open>
  Claim C2. Whenever \<^verbatim>\<open>add\<close> throws, whatever the error, the state after the call is the
  state before it: the registry has the same descriptors in the same order, and the log has
  the same entries. The errors that \<^verbatim>\<open>add\<close> can throw are those of \<open>add_error_kinds\<close>.
\<close>

theorem add_failure_leaves_state:
  assumes "fst (add r ps s) = Inl e"
  shows "snd (add r ps s) = s \<and> timers (snd (add r ps s)) = timers s \<and>
         log_of (snd (add r ps s)) = log_of s"
proof -
  from assms have "snd (add r ps s) = s" by (rule add_Inl_state)
  then show ?thesis by simp
qed

theorem add_failure_leaves_state_witness:
  "fst (add 1 [] one_registered) =
     Inl (Error (''Timer '' @ dquote @ ''t1'' @ dquote @ '' already exists!'')) \<and>
   snd (add 1 [] one_registered) = one_registered \<and>
   length (timers (snd (add 1 [] one_registered))) = 1"
proof -
  let ?s = "one_registered"
  have h: "fst (add 1 [] ?s) =
      Inl (Error (''Timer '' @ dquote @ ''t1'' @ dquote @ '' already exists!''))"
    by (simp add: one_registered_def method_defs t1_def Let_def)
  have "length (timers ?s) = 1" by (simp add: one_registered_fields)
  with add_failure_leaves_state [OF h] h show ?thesis by simp
qed



text \<open>
  Claim C4. For every state and every argument, \<^verbatim>\<open>remove\<close> is \<^verbatim>\<open>pause\<close> followed, exactly
  when the returned index is not negative, by the deletion of the descriptor at that index
  (\<open>remove_spec\<close>); when \<^verbatim>\<open>pause\<close> throws, both throw the same error. Removing a non-empty
  string that names no registered descriptor returns normally and changes nothing.
\<close>

theorem remove_is_pause_then_delete:
  "remove timerName s = remove_spec timerName s \<and>
   (typeof timerName = ''string'' \<and> truthy timerName \<and> \<not> registered timerName s \<longrightarrow>
      remove timerName s = (Inr (), s))"
proof -
  have eq: "remove timerName s = remove_spec timerName s"
    by (auto simp: remove_def remove_spec_def splice1_delete_at split: prod.splits sum.splits)
  have "remove timerName s = (Inr (), s)"
    if "typeof timerName = ''string''" "truthy timerName" "\<not> registered timerName s"
  proof -
    from that(1,2) obtain n where n: "timerName = JStr n" "n \<noteq> []"
      by (rule valid_name_cases)
    with that(3) have "findIndex (\<lambda>d. name d = JStr n) (timers s) = - 1"
      by (simp add: not_registered_findIndex)
    with n show ?thesis by (simp add: remove_def pause_not_found)
  qed
  with eq show ?thesis by blast
qed

theorem remove_is_pause_then_delete_witness:
  "typeof (JStr ''t9'') = ''string'' \<and> truthy (JStr ''t9'') \<and>
   \<not> registered (JStr ''t9'') one_started \<and>
   remove (JStr ''t9'') one_started =
     (Inr (), one_started) \<and>
   remove (JStr ''t1'') one_started =
     remove_spec (JStr ''t1'') one_started"
proof -
  let ?s = "one_started"
  have h: "typeof (JStr ''t9'') = ''string'' \<and> truthy (JStr ''t9'') \<and> \<not> registered (JStr ''t9'') ?s"
    by (simp add: one_started_fields registered_def entry_of_def t1_def)
  from remove_is_pause_then_delete [of "JStr ''t9''" ?s] h
  have "remove (JStr ''t9'') ?s = (Inr (), ?s)" by blast
  moreover from remove_is_pause_then_delete [of "JStr ''t1''" ?s]
  have "remove (JStr ''t1'') ?s = remove_spec (JStr ''t1'') ?s" by blast
  ultimately show ?thesis using h by blast
qed

text \<open>
  Claim C5, at the delay NaN. NaN is of type number and is not inside the interval from 0 to
  5000, yet \<^verbatim>\<open>add\<close> on a new manager accepts the descriptor \<open>t1\<close> with the delay NaN and
  registers it: both comparisons of line 91 are false for NaN. For every other number the
  range error is thrown exactly outside the interval, and a delay that is not a number gets
  the type error (\<open>add_delay_check\<close>).
\<close>

theorem add_accepts_nan_delay:
  "\<not> in_range NaN \<and>
   add 1 [] (ext_new 1 (t1\<lparr>delay := JNum NaN\<rparr>) constructor) =
     (Inr (), (ext_new 1 (t1\<lparr>delay := JNum NaN\<rparr>) constructor)
                \<lparr>timers := [entry_of 1 (t1\<lparr>delay := JNum NaN\<rparr>) []]\<rparr>) \<and>
   map delay (timers (snd (add 1 [] (ext_new 1 (t1\<lparr>delay := JNum NaN\<rparr>) constructor)))) =
     [JNum NaN]"
  by (simp add: in_range_def add_def p_findTimerIndex_def entry_of_def ext_new_def t1_def
      constructor_def)

text \<open>
  Claim C6. For a non-empty string \<open>n\<close>, \<^verbatim>\<open>pause\<close> and \<^verbatim>\<open>resume\<close> both return normally, with
  the same index. When a descriptor of that name is registered, the index is the position of
  the first one, whatever its handle; otherwise the index is -1 and the state is unchanged.
  \<^verbatim>\<open>pause\<close> on a registered descriptor whose handle is absent leaves the whole state
  unchanged.
\<close>

theorem pause_resume_index:
  assumes "n \<noteq> []"
  shows "(let idx = findIndex (\<lambda>d. name d = JStr n) (timers s) in
     fst (pause (JStr n) s) = Inr idx \<and> fst (resume (JStr n) s) = Inr idx \<and>
     (registered (JStr n) s \<longrightarrow>
        0 \<le> idx \<and> nat idx < length (timers s) \<and> name (timers s ! nat idx) = JStr n \<and>
        (\<forall>j < nat idx. name (timers s ! j) \<noteq> JStr n)) \<and>
     (\<not> registered (JStr n) s \<longrightarrow>
        idx = - 1 \<and> snd (pause (JStr n) s) = s \<and> snd (resume (JStr n) s) = s) \<and>
     (registered (JStr n) s \<and> timerId (timers s ! nat idx) = None \<longrightarrow>
        snd (pause (JStr n) s) = s))"
proof -
  let ?P = "\<lambda>d. name d = JStr n"
  let ?idx = "findIndex ?P (timers s)"
  have r: "fst (pause (JStr n) s) = Inr ?idx" "fst (resume (JStr n) s) = Inr ?idx"
    using assms by (simp_all add: fst_pause fst_resume)
  have found: "0 \<le> ?idx \<and> nat ?idx < length (timers s) \<and> name (timers s ! nat ?idx) = JStr n \<and>
        (\<forall>j < nat ?idx. name (timers s ! j) \<noteq> JStr n)" if "registered (JStr n) s"
  proof -
    from that have ge: "0 \<le> ?idx" by (rule registered_findIndex)
    moreover from ge findIndex_lt_length [of ?P "timers s"] have "nat ?idx < length (timers s)"
      by simp
    moreover from ge have "name (timers s ! nat ?idx) = JStr n" by (rule findIndex_nth)
    moreover have "\<forall>j < nat ?idx. name (timers s ! j) \<noteq> JStr n"
      using findIndex_first [of _ ?P "timers s"] by blast
    ultimately show ?thesis by blast
  qed
  have missing: "?idx = - 1 \<and> snd (pause (JStr n) s) = s \<and> snd (resume (JStr n) s) = s"
    if "\<not> registered (JStr n) s"
  proof -
    from that have "?idx = - 1" by (rule not_registered_findIndex)
    with assms show ?thesis by (simp add: pause_not_found resume_not_found)
  qed
  have idle: "snd (pause (JStr n) s) = s"
    if "registered (JStr n) s" "timerId (timers s ! nat ?idx) = None"
    using assms registered_findIndex [OF that(1)] that(2) by (rule pause_idle)
  from r found missing idle show ?thesis
    unfolding Let_def by blast
qed

theorem pause_resume_index_witness:
  "''t2'' \<noteq> [] \<and> registered (JStr ''t2'') two_registered \<and>
   timerId (timers two_registered ! 1) = None \<and>
   fst (pause (JStr ''t2'') two_registered) = Inr 1 \<and>
   fst (resume (JStr ''t2'') two_registered) = Inr 1 \<and>
   snd (pause (JStr ''t2'') two_registered) =
     two_registered \<and>
   ''t9'' \<noteq> [] \<and> \<not> registered (JStr ''t9'') two_registered \<and>
   fst (pause (JStr ''t9'') two_registered) = Inr (- 1) \<and>
   fst (resume (JStr ''t9'') two_registered) = Inr (- 1) \<and>
   snd (resume (JStr ''t9'') two_registered) =
     two_registered"
proof -
  let ?s = "two_registered"
  have ts: "timers ?s = [entry_of 1 t1 [], entry_of 2 t2 []]" by (rule two_registered_timers)
  have i2: "findIndex (\<lambda>d. name d = JStr ''t2'') (timers ?s) = 1"
    and i9: "findIndex (\<lambda>d. name d = JStr ''t9'') (timers ?s) = - 1"
    unfolding ts by (simp_all add: entry_of_def t1_def t2_def)
  have n2: "''t2'' \<noteq> []" and n9: "''t9'' \<noteq> []" by simp_all
  have r2: "registered (JStr ''t2'') ?s" and r9: "\<not> registered (JStr ''t9'') ?s"
    unfolding registered_def ts by (simp_all add: entry_of_def t1_def t2_def)
  have idle: "timerId (timers ?s ! 1) = None" unfolding ts by (simp add: entry_of_def t2_def)
  from pause_resume_index [OF n2, of ?s] r2 idle
  have a: "fst (pause (JStr ''t2'') ?s) = Inr 1" "fst (resume (JStr ''t2'') ?s) = Inr 1"
    "snd (pause (JStr ''t2'') ?s) = ?s"
    unfolding Let_def i2 by simp_all
  from pause_resume_index [OF n9, of ?s] r9
  have b: "fst (pause (JStr ''t9'') ?s) = Inr (- 1)" "fst (resume (JStr ''t9'') ?s) = Inr (- 1)"
    "snd (resume (JStr ''t9'') ?s) = ?s"
    unfolding Let_def i9 by simp_all
  from n2 n9 r2 r9 idle a b show ?thesis by blast
qed

text \<open>
  Claim C7. \<^verbatim>\<open>add\<close>, \<^verbatim>\<open>start\<close>, \<^verbatim>\<open>stop\<close>, \<^verbatim>\<open>pause\<close>, \<^verbatim>\<open>resume\<close>, \<^verbatim>\<open>remove\<close> and
  \<^verbatim>\<open>print\<close> leave the log as it is, whether they return or throw; a timer that fires leaves
  the entries in place and puts one new entry after them, or, when a value leaves the
  callback uncaught, leaves the log as it is.
\<close>

theorem log_append_only:
  "log_of (snd (add r ps s)) = log_of s \<and> log_of (start s) = log_of s \<and>
   log_of (stop s) = log_of s \<and> log_of (snd (pause tn s)) = log_of s \<and>
   log_of (snd (resume tn s)) = log_of s \<and> log_of (snd (remove tn s)) = log_of s \<and>
   log_of (snd (print s)) = log_of s \<and>
   (case fire h oc now s of
      NotArmed \<Rightarrow> True
    | Uncaught v s' \<Rightarrow> log_of s' = log_of s
    | Fired s' \<Rightarrow> \<exists>e. log_of s' = log_of s @ [e])"
proof -
  have "case fire h oc now s of
      NotArmed \<Rightarrow> True
    | Uncaught v s' \<Rightarrow> log_of s' = log_of s
    | Fired s' \<Rightarrow> \<exists>e. log_of s' = log_of s @ [e]"
  proof (cases "find (\<lambda>a. a_handle a = h) (pending s)")
    case None
    then show ?thesis by (simp add: fire_not_armed)
  next
    case (Some a)
    show ?thesis
    proof (cases "log_accepts oc s")
      case True
      then show ?thesis by (simp add: fire_armed [OF Some] log_of_clear_timer)
    next
      case False
      from fire_escapes [OF Some False, of now] show ?thesis
        by (auto simp: log_of_clear_timer)
    qed
  qed
  then show ?thesis
    by (simp add: log_of_def add_frame start_frame stop_frame pause_frame resume_frame
        remove_frame print_def)
qed

theorem log_append_only_witness:
  "log_of one_fired =
     [\<lparr>l_name = JStr ''t1'', l_in = [], l_out = JUndefined, l_created = 1000, l_error = None\<rparr>] \<and>
   log_of (snd (pause (JStr ''t1'') one_fired)) = log_of one_fired \<and>
   log_of (snd (remove (JStr ''t1'') one_fired)) = log_of one_fired \<and>
   log_of (stop one_fired) = log_of one_fired \<and>
   (\<exists>s' e. fire 1 (Returned JNull) 2000 one_fired = Fired s' \<and>
      log_of s' = log_of one_fired @ [e])"
proof -
  let ?s = "one_fired"
  have f: "\<exists>s'. fire 1 (Returned JNull) 2000 ?s = Fired s'"
    by (simp add: fire_armed log_accepts_def one_fired_fields)
  from log_append_only [of 1 "[]" ?s "JStr ''t1''" 1 "Returned JNull" 2000] f
  show ?thesis
    by (auto simp: one_fired_fields)
qed

text \<open>
  Claim C8, at the calls \<^verbatim>\<open>add(t1); start(); resume('t1')\<close> on a new manager. \<^verbatim>\<open>start\<close>
  arms the timer 1 for \<open>t1\<close>. In \<^verbatim>\<open>resume\<close>, \<^verbatim>\<open>_startTimer\<close> finds a handle stored, arms
  nothing and returns null, and \<^verbatim>\<open>resume\<close> stores that null: the descriptor has no handle
  while its timer is still armed. No later \<^verbatim>\<open>pause\<close> or \<^verbatim>\<open>stop\<close> clears that timer, and
  it goes on firing. The same holds in every state (\<open>resume_armed_loses_handle\<close>).
\<close>

theorem resume_on_armed_drops_handle:
  "map name (timers (run [Add 1 [], Start, Resume (JStr ''t1'')] script)) = [JStr ''t1''] \<and>
   map timerId (timers (run [Add 1 [], Start, Resume (JStr ''t1'')] script)) = [None] \<and>
   has_armed_timer (JStr ''t1'') (run [Add 1 [], Start, Resume (JStr ''t1'')] script) \<and>
   map a_handle (pending (run [Add 1 [], Start, Resume (JStr ''t1'')] script)) = [1] \<and>
   map a_handle (pending (run [Add 1 [], Start, Resume (JStr ''t1''), Pause (JStr ''t1''), Stop]
     script)) = [1] \<and>
   map l_name (log_of (run [Add 1 [], Start, Resume (JStr ''t1''), Pause (JStr ''t1''), Stop,
     Fire 1 (Returned JUndefined) 2000] script)) = [JStr ''t1'']"
  by (simp add: method_defs t1_def has_armed_timer_def log_of_def)

text \<open>
  Claim C9 fails as stated. The job of \<open>t2\<close> has run once and the log holds its entry. The
  caller empties the array that \<^verbatim>\<open>print()\<close> returned; the next \<^verbatim>\<open>print()\<close> returns an
  empty log, not the entry appended by the job.
\<close>

theorem print_alias_counterexample:
  "log_of (run [Add 2 [JNum (Finite 1), JNum (Finite 2)], Start,
                Fire 1 (Returned (JNum (Finite 3))) 1000] script) =
     [\<lparr>l_name = JStr ''t2'', l_in = [JNum (Finite 1), JNum (Finite 2)], l_out = JNum (Finite 3),
       l_created = 1000, l_error = None\<rparr>] \<and>
   log_of (snd (print (ext_write
     (fst (print (run [Add 2 [JNum (Finite 1), JNum (Finite 2)], Start,
                       Fire 1 (Returned (JNum (Finite 3))) 1000] script))) []
     (run [Add 2 [JNum (Finite 1), JNum (Finite 2)], Start,
           Fire 1 (Returned (JNum (Finite 3))) 1000] script)))) = []"
  by (simp add: method_defs t2_def log_of_def ext_write_def)

text \<open>
  Claim C9 as amended. \<^verbatim>\<open>print()\<close> returns the reference stored in \<^verbatim>\<open>logData\<close> and
  changes nothing. The returned array is the log itself: once a caller has written \<open>xs\<close>
  into it, the log is \<open>xs\<close>, \<^verbatim>\<open>print()\<close> still returns the same reference, and the next
  entry is appended to \<open>xs\<close>: \<^verbatim>\<open>_log\<close> returns or throws as it would without the write, and
  when it returns, the log is \<open>xs\<close> followed by its entry. A write into any other array
  leaves the log as it is.
\<close>

theorem print_returns_live_log:
  "fst (print s) = logData s \<and> snd (print s) = s \<and>
   log_of (ext_write (fst (print s)) xs s) = xs \<and>
   fst (print (ext_write (fst (print s)) xs s)) = fst (print s) \<and>
   fst (p_log d out err now (ext_write (fst (print s)) xs s)) = fst (p_log d out err now s) \<and>
   (fst (p_log d out err now s) = Inr () \<longrightarrow>
      log_of (snd (p_log d out err now (ext_write (fst (print s)) xs s))) =
        xs @ [last (log_of (snd (p_log d out err now s)))]) \<and>
   (r \<noteq> logData s \<longrightarrow> log_of (ext_write r xs s) = log_of s)"
proof -
  have 1: "fst (p_log d out err now (ext_write (logData s) xs s)) = fst (p_log d out err now s)"
    by (simp add: p_log_def push_def ext_write_def Let_def split: sum.splits)
  have 2: "log_of (snd (p_log d out err now (ext_write (logData s) xs s))) =
        xs @ [last (log_of (snd (p_log d out err now s)))]"
    if "fst (p_log d out err now s) = Inr ()"
    using that
    by (auto simp: p_log_def push_def ext_write_def log_of_def Let_def split: sum.splits if_splits)
  from 1 2 show ?thesis
    by (simp add: print_def ext_write_def log_of_def)
qed

theorem print_returns_live_log_witness:
  "(1::nat) \<noteq> logData t2_fired \<and> fst (print t2_fired) = 0 \<and>
   log_of t2_fired =
     [\<lparr>l_name = JStr ''t2'', l_in = [JNum (Finite 1), JNum (Finite 2)], l_out = JNum (Finite 3),
       l_created = 1000, l_error = None\<rparr>] \<and>
   log_of (ext_write 1 [] t2_fired) = log_of t2_fired \<and>
   log_of (ext_write (fst (print t2_fired)) [] t2_fired) = [] \<and>
   fst (p_log 2 JNull JUndefined 2000 t2_fired) = Inr () \<and>
   map l_created (log_of (snd (p_log 2 JNull JUndefined 2000
      (ext_write (fst (print t2_fired)) [] t2_fired)))) = [2000]"
proof -
  have h: "(1::nat) \<noteq> logData t2_fired" by (simp add: t2_fired_fields)
  have z: "logData t2_fired = 0" by (simp add: t2_fired_fields)
  have ok: "fst (p_log 2 JNull JUndefined 2000 t2_fired) = Inr ()"
    by (simp add: p_log_ok t2_fired_fields)
  have la: "last (log_of (snd (p_log 2 JNull JUndefined 2000 t2_fired))) =
      log_entry_for 2 JNull JUndefined 2000 t2_fired"
    by (simp add: p_log_ok t2_fired_fields log_of_def)
  from print_returns_live_log [of t2_fired "[]" 2 JNull JUndefined 2000 1] h ok
  have "fst (print t2_fired) = logData t2_fired"
    and "log_of (ext_write 1 [] t2_fired) = log_of t2_fired"
    and "log_of (ext_write (fst (print t2_fired)) [] t2_fired) = []"
    and "log_of (snd (p_log 2 JNull JUndefined 2000 (ext_write (fst (print t2_fired)) [] t2_fired))) =
           [] @ [last (log_of (snd (p_log 2 JNull JUndefined 2000 t2_fired)))]"
    by blast+
  with h z ok la show ?thesis by (simp add: t2_fired_fields log_entry_for_def)
qed

text \<open>
  Claim C10. Let a descriptor named \<open>n\<close> be registered with no handle stored. Whatever the
  flag \<^verbatim>\<open>allStarted\<close> is, \<^verbatim>\<open>resume(n)\<close> arms a new timer for it, with the next handle of
  the platform, stores that handle in the descriptor, and leaves the flag as it is. When the
  platform has issued the handles in use and the element of the registry agrees with the
  stored object (as in every reachable state), that timer is the one that fires under the new
  handle; and when \<^verbatim>\<open>_log\<close> can write the entry, its firing logs an entry for \<open>n\<close>.
\<close>

theorem resume_arms_without_start:
  assumes "n \<noteq> []" and "registered (JStr n) s"
    and "timerId (timers s ! nat (findIndex (\<lambda>d. name d = JStr n) (timers s))) = None"
  shows "(let i = nat (findIndex (\<lambda>d. name d = JStr n) (timers s)); d = timers s ! i;
              s' = snd (resume (JStr n) s)
          in name d = JStr n \<and>
             timers s' = (timers s)[i := d\<lparr>timerId := Some (nextId s)\<rparr>] \<and>
             pending s' = pending s @
               [\<lparr>a_handle = nextId s, a_recurring = truthy (interval d), a_delay = delay d,
                 a_desc = d\<rparr>] \<and>
             allStarted s' = allStarted s \<and>
             (plat_ok s \<longrightarrow>
                fire (nextId s) oc now s' \<noteq> NotArmed \<and>
                find (\<lambda>a. a_handle a = nextId s) (pending s') =
                  Some \<lparr>a_handle = nextId s, a_recurring = truthy (interval d), a_delay = delay d,
                        a_desc = d\<rparr>) \<and>
             (plat_ok s \<and> synced d s \<and> log_accepts oc s \<longrightarrow>
                (\<exists>s'' e. fire (nextId s) oc now s' = Fired s'' \<and> log_of s'' = log_of s @ [e] \<and>
                   l_name e = JStr n \<and> l_in e = callbackParams d)))"
proof -
  let ?idx = "findIndex (\<lambda>d. name d = JStr n) (timers s)"
  let ?d = "timers s ! nat ?idx"
  let ?a = "\<lparr>a_handle = nextId s, a_recurring = truthy (interval ?d), a_delay = delay ?d,
             a_desc = ?d\<rparr>"
  let ?s' = "snd (resume (JStr n) s)"
  from assms(2) have ge: "0 \<le> ?idx" by (rule registered_findIndex)
  then have nm: "name ?d = JStr n" by (rule findIndex_nth)
  have eq: "?s' = s\<lparr>pending := pending s @ [?a], nextId := Suc (nextId s),
                     timers := (timers s)[nat ?idx := ?d\<lparr>timerId := Some (nextId s)\<rparr>]\<rparr>"
    using assms(1) ge assms(3) by (simp add: resume_found p_startTimer_None Let_def)
  have t: "timers ?s' = (timers s)[nat ?idx := ?d\<lparr>timerId := Some (nextId s)\<rparr>]"
    and p: "pending ?s' = pending s @ [?a]" and f: "allStarted ?s' = allStarted s"
    and lg: "log_of ?s' = log_of s" and ob: "objs ?s' = objs s"
    and la: "log_accepts oc ?s' = log_accepts oc s"
    unfolding eq by (simp_all add: log_of_def log_accepts_def)
  have fd: "find (\<lambda>a. a_handle a = nextId s) (pending ?s') = Some ?a" if ok: "plat_ok s"
  proof -
    from ok have "\<forall>a \<in> set (pending s). a_handle a \<noteq> nextId s"
      by (auto simp: plat_ok_iff)
    then have "find (\<lambda>a. a_handle a = nextId s) (pending s) = None"
      by (simp add: find_None_iff)
    then show ?thesis
      unfolding p by (simp add: find_append_None)
  qed
  have armed: "fire (nextId s) oc now ?s' \<noteq> NotArmed" if ok: "plat_ok s"
  proof (cases "log_accepts oc ?s'")
    case True
    from fire_armed [OF fd [OF ok] True, of now] show ?thesis by simp
  next
    case False
    from fire_escapes [OF fd [OF ok] False, of now] show ?thesis by auto
  qed
  have fires: "\<exists>s'' e. fire (nextId s) oc now ?s' = Fired s'' \<and> log_of s'' = log_of s @ [e] \<and>
                   l_name e = JStr n \<and> l_in e = callbackParams ?d"
    if ok: "plat_ok s" and sy: "synced ?d s" and acc: "log_accepts oc s"
  proof -
    from acc la have acc': "log_accepts oc ?s'" by simp
    let ?e = "entry_of_firing ?d oc now ?s'"
    have "l_name ?e = name (objs s (oid ?d))" "l_in ?e = callbackParams (objs s (oid ?d))"
      by (cases oc; simp add: entry_of_firing_def log_entry_for_def ob)+
    with sy nm have "l_name ?e = JStr n" "l_in ?e = callbackParams ?d"
      by (simp_all add: synced_def)
    moreover
    let ?s1 = "?s'\<lparr>arrays := (arrays ?s')(logData ?s' := arrays ?s' (logData ?s') @ [?e])\<rparr>"
    let ?s2 = "if a_recurring ?a then ?s1 else clear_timer (nextId s) ?s1"
    from fire_armed [OF fd [OF ok] acc', of now]
    have "fire (nextId s) oc now ?s' = Fired ?s2" by simp
    moreover have "log_of ?s2 = log_of s @ [?e]"
      by (simp add: log_of_clear_timer lg)
    ultimately show ?thesis by blast
  qed
  from nm t p f fd armed fires show ?thesis
    unfolding Let_def by blast
qed

theorem resume_arms_without_start_witness:
  "''t1'' \<noteq> [] \<and> registered (JStr ''t1'') one_registered \<and>
   timerId (timers one_registered ! 0) = None \<and>
   plat_ok one_registered \<and> synced (timers one_registered ! 0) one_registered \<and>
   log_accepts (Returned JUndefined) one_registered \<and> \<not> allStarted one_registered \<and>
   timers (snd (resume (JStr ''t1'') one_registered)) = [(entry_of 1 t1 [])\<lparr>timerId := Some 1\<rparr>] \<and>
   pending (snd (resume (JStr ''t1'') one_registered)) =
     [\<lparr>a_handle = 1, a_recurring = True, a_delay = JNum (Finite 1000), a_desc = entry_of 1 t1 []\<rparr>] \<and>
   \<not> allStarted (snd (resume (JStr ''t1'') one_registered)) \<and>
   (\<exists>s'' e. fire 1 (Returned JUndefined) 1000
        (snd (resume (JStr ''t1'') one_registered)) = Fired s'' \<and>
      log_of s'' = [e] \<and> l_name e = JStr ''t1'' \<and> l_in e = [])"
proof -
  let ?s = "one_registered"
  let ?d = "entry_of 1 t1 []"
  have ts: "timers ?s = [?d]" by (simp add: one_registered_fields)
  have i: "findIndex (\<lambda>d. name d = JStr ''t1'') (timers ?s) = 0"
    unfolding ts by (simp add: entry_of_def t1_def)
  have n: "''t1'' \<noteq> []" by simp
  have r: "registered (JStr ''t1'') ?s" unfolding registered_def ts by (simp add: entry_of_def t1_def)
  have idle: "timerId (timers ?s ! nat (findIndex (\<lambda>d. name d = JStr ''t1'') (timers ?s))) = None"
    unfolding i ts by (simp add: entry_of_def)
  have ok: "plat_ok ?s" and off: "\<not> allStarted ?s" and lg: "log_of ?s = []"
    and nx: "nextId ?s = 1" and pe: "pending ?s = []"
    by (simp_all add: plat_ok_def one_registered_fields)
  have sy: "synced (timers ?s ! 0) ?s"
    unfolding ts by (simp add: synced_def entry_of_def one_registered_fields t1_def)
  have acc: "log_accepts (Returned JUndefined) ?s"
    by (simp add: log_accepts_def one_registered_fields)
  from resume_arms_without_start [OF n r idle, of "Returned JUndefined" 1000] ok sy acc
  have "timers (snd (resume (JStr ''t1'') ?s)) = [?d\<lparr>timerId := Some 1\<rparr>]"
    and "pending (snd (resume (JStr ''t1'') ?s)) =
      [\<lparr>a_handle = 1, a_recurring = True, a_delay = JNum (Finite 1000), a_desc = ?d\<rparr>]"
    and "allStarted (snd (resume (JStr ''t1'') ?s)) = allStarted ?s"
    and "\<exists>s'' e. fire 1 (Returned JUndefined) 1000 (snd (resume (JStr ''t1'') ?s)) = Fired s'' \<and>
           log_of s'' = [e] \<and> l_name e = JStr ''t1'' \<and> l_in e = []"
    unfolding Let_def i by (simp_all add: ts nx pe lg entry_of_def t1_def)
  with n r idle ok sy acc off show ?thesis unfolding i by (simp add: ts)
qed

end
